theory Spec2Isabelle
  imports Complex_Main "HOL-Library.Sublist"
begin

section \<open>Strings and the string primitives the engine uses\<close>

text \<open>
  The duplication engine lives twice in the repository: in the lint rule
  (\<^verbatim>\<open>src/rules/no-code-duplication.js\<close>) and in the staged-files script (the unnamed
  source part). The two copies differ in a few guards; \<open>site\<close> selects the copy.

  A JavaScript string is a sequence of UTF-16 code units. The model uses \<open>string\<close>, that
  is code units in the range 0..255; every character class below is the ECMAScript class
  restricted to that range.
\<close>

datatype site = Rule | Script

definition newline :: char where
  "newline = CHR 0x0A"

text \<open>ECMAScript \<^verbatim>\<open>\s\<close> and \<^verbatim>\<open>trim()\<close>: TAB, LF, VT, FF, CR, SPACE, NBSP.\<close>

definition isWhiteSpace :: "char \<Rightarrow> bool" where
  "isWhiteSpace c =
     (c = CHR 0x09 \<or> c = CHR 0x0A \<or> c = CHR 0x0B \<or> c = CHR 0x0C \<or> c = CHR 0x0D \<or>
      c = CHR 0x20 \<or> c = CHR 0xA0)"

definition isDigit :: "char \<Rightarrow> bool" where
  "isDigit c = (let n = (of_char c :: nat) in 48 \<le> n \<and> n \<le> 57)"

definition isLetter :: "char \<Rightarrow> bool" where
  "isLetter c =
     (let n = (of_char c :: nat) in (65 \<le> n \<and> n \<le> 90) \<or> (97 \<le> n \<and> n \<le> 122))"

text \<open>\<^verbatim>\<open>\w\<close>, the class behind \<^verbatim>\<open>\b\<close>: \<^verbatim>\<open>[A-Za-z0-9_]\<close>.\<close>

definition isWordChar :: "char \<Rightarrow> bool" where
  "isWordChar c = (isLetter c \<or> isDigit c \<or> c = CHR ''_'')"

text \<open>\<^verbatim>\<open>[a-zA-Z_$]\<close> and \<^verbatim>\<open>[a-zA-Z0-9_$]\<close> of \<^verbatim>\<open>identifierPattern\<close>.\<close>

definition isIdentStart :: "char \<Rightarrow> bool" where
  "isIdentStart c = (isLetter c \<or> c = CHR ''_'' \<or> c = CHR ''$'')"

definition isIdentPart :: "char \<Rightarrow> bool" where
  "isIdentPart c = (isLetter c \<or> isDigit c \<or> c = CHR ''_'' \<or> c = CHR ''$'')"

text \<open>\<^verbatim>\<open>s.split("\n")\<close>: never the empty list; the empty string gives one empty line.\<close>

fun splitLines :: "string \<Rightarrow> string list" where
  "splitLines [] = [[]]"
| "splitLines (c # cs) =
     (if c = newline then [] # splitLines cs
      else (case splitLines cs of
              [] \<Rightarrow> [[c]]
            | l # ls \<Rightarrow> (c # l) # ls))"

text \<open>\<^verbatim>\<open>lines.join("\n")\<close>.\<close>

fun joinLines :: "string list \<Rightarrow> string" where
  "joinLines [] = []"
| "joinLines [l] = l"
| "joinLines (l # ls) = l @ newline # joinLines ls"

text \<open>\<^verbatim>\<open>s.split(sep)[0]\<close> for a non-empty separator: the text before its first occurrence.\<close>

fun beforeFirst :: "string \<Rightarrow> string \<Rightarrow> string" where
  "beforeFirst sep [] = []"
| "beforeFirst sep (c # cs) = (if prefix sep (c # cs) then [] else c # beforeFirst sep cs)"

text \<open>\<^verbatim>\<open>s.trim()\<close>.\<close>

definition trim :: "string \<Rightarrow> string" where
  "trim s = rev (dropWhile isWhiteSpace (rev (dropWhile isWhiteSpace s)))"

text \<open>\<^verbatim>\<open>s.replace(/\s+/g, " ")\<close>: every maximal run of white space becomes one space.\<close>

function collapseWhitespace :: "string \<Rightarrow> string" where
  "collapseWhitespace [] = []"
| "collapseWhitespace (c # cs) =
     (if isWhiteSpace c then CHR '' '' # collapseWhitespace (dropWhile isWhiteSpace cs)
      else c # collapseWhitespace cs)"
  by pat_completeness auto
termination
  by (relation "measure length") (auto simp: length_dropWhile_le less_Suc_eq_le)

text \<open>Decimal rendering of a counter inside a template literal.\<close>

fun showNat :: "nat \<Rightarrow> string" where
  "showNat n =
     (if n < 10 then [''0123456789'' ! n]
      else showNat (n div 10) @ [''0123456789'' ! (n mod 10)])"

declare showNat.simps [simp del]

section \<open>Regular expressions of the engine\<close>

text \<open>
  \<^verbatim>\<open>\b\<close> holds between two positions when exactly one of the neighbouring characters
  is a word character; the ends of the input count as non-word. A position is given by
  the character before it (if any) and the rest of the input.
\<close>

fun isWordOpt :: "char option \<Rightarrow> bool" where
  "isWordOpt None = False"
| "isWordOpt (Some c) = isWordChar c"

fun headOpt :: "string \<Rightarrow> char option" where
  "headOpt [] = None"
| "headOpt (c # cs) = Some c"

definition wordBoundary :: "char option \<Rightarrow> string \<Rightarrow> bool" where
  "wordBoundary prev rest = (isWordOpt prev \<noteq> isWordOpt (headOpt rest))"

text \<open>
  \<^verbatim>\<open>/\b([a-zA-Z_$][a-zA-Z0-9_$]*)\b/g\<close> after its first character \<open>c\<close> has matched:
  the star is greedy, so it first tries to take the next character and only when the rest
  of the pattern fails there does it stop and test the closing \<^verbatim>\<open>\b\<close>. The result is
  the number of further characters of the match.
\<close>

fun greedyIdent :: "char \<Rightarrow> string \<Rightarrow> nat option" where
  "greedyIdent c [] = (if isWordChar c then Some 0 else None)"
| "greedyIdent c (x # xs) =
     (if isIdentPart x then
        (case greedyIdent x xs of
           Some k \<Rightarrow> Some (Suc k)
         | None \<Rightarrow> if isWordChar c \<noteq> isWordChar x then Some 0 else None)
      else if isWordChar c \<noteq> isWordChar x then Some 0 else None)"

text \<open>
  \<^verbatim>\<open>[...code.matchAll(identifierPattern)]\<close>, reduced to \<^verbatim>\<open>match[1]\<close> of every match,
  in order. Matches are never empty, so the scan resumes right after each match.
\<close>

function matchAll :: "char option \<Rightarrow> string \<Rightarrow> string list" where
  "matchAll prev [] = []"
| "matchAll prev (c # cs) =
     (if wordBoundary prev (c # cs) \<and> isIdentStart c then
        (case greedyIdent c cs of
           Some k \<Rightarrow> (c # take k cs) # matchAll (Some (last (c # take k cs))) (drop k cs)
         | None \<Rightarrow> matchAll (Some c) cs)
      else matchAll (Some c) cs)"
  by pat_completeness auto
termination
  by (relation "measure (\<lambda>(prev, rest). length rest)") auto

text \<open>
  The patterns built by \<^verbatim>\<open>new RegExp(...)\<close> in the second pass stay inside a small fragment
  of the regular-expression language: word boundaries, literal characters, escaped
  characters and the end-of-input assertion \<^verbatim>\<open>$\<close> (no \<^verbatim>\<open>m\<close> flag is given).
\<close>

datatype reItem = WordBoundary | EndOfInput | Lit char

text \<open>The characters of \<^verbatim>\<open>/[.*+?^${}()|[\]\\]/\<close>, the class the rule escapes.\<close>

definition backslash :: char where
  "backslash = CHR 0x5C"

definition isSyntaxChar :: "char \<Rightarrow> bool" where
  "isSyntaxChar c = (c \<in> set ''.*+?^${}()|[]'' \<or> c = backslash)"

text \<open>\<^verbatim>\<open>identifier.replace(/[.*+?^${}()|[\]\\]/g, "\\$&")\<close>.\<close>

fun escapeRegExp :: "string \<Rightarrow> string" where
  "escapeRegExp [] = []"
| "escapeRegExp (c # cs) =
     (if isSyntaxChar c then backslash # c # escapeRegExp cs else c # escapeRegExp cs)"

text \<open>
  The pattern source handed to \<^verbatim>\<open>new RegExp\<close>: the rule escapes the identifier, the
  script interpolates it as it is.
\<close>

fun regexSource :: "site \<Rightarrow> string \<Rightarrow> string" where
  "regexSource Rule identifier =
     [backslash, CHR ''b''] @ escapeRegExp identifier @ [backslash, CHR ''b'']"
| "regexSource Script identifier =
     [backslash, CHR ''b''] @ identifier @ [backslash, CHR ''b'']"

text \<open>
  Compiling a pattern source of the fragment. \<open>None\<close> stands for a source outside the
  fragment (a quantifier, a class, a group, another escape); \<open>compile_identifier\<close>
  shows that no identifier the first pass collects leads there.
\<close>

fun compile :: "string \<Rightarrow> reItem list option" where
  "compile [] = Some []"
| "compile [c] =
     (if c = CHR ''$'' then Some [EndOfInput]
      else if isSyntaxChar c then None
      else Some [Lit c])"
| "compile (c # d # cs) =
     (if c = backslash then
        (if d = CHR ''b'' then map_option ((#) WordBoundary) (compile cs)
         else if isSyntaxChar d then map_option ((#) (Lit d)) (compile cs)
         else None)
      else if c = CHR ''$'' then map_option ((#) EndOfInput) (compile (d # cs))
      else if isSyntaxChar c then None
      else map_option ((#) (Lit c)) (compile (d # cs)))"

text \<open>
  Matching a compiled pattern at a position. The fragment has no choice points, so the
  match is unique: the result is the position right after it.
\<close>

fun matchItems :: "reItem list \<Rightarrow> char option \<Rightarrow> string \<Rightarrow> (char option \<times> string) option" where
  "matchItems [] prev rest = Some (prev, rest)"
| "matchItems (WordBoundary # items) prev rest =
     (if wordBoundary prev rest then matchItems items prev rest else None)"
| "matchItems (EndOfInput # items) prev rest =
     (if rest = [] then matchItems items prev rest else None)"
| "matchItems (Lit c # items) prev [] = None"
| "matchItems (Lit c # items) prev (x # xs) =
     (if x = c then matchItems items (Some x) xs else None)"

text \<open>
  \<^verbatim>\<open>text.replace(regex, placeholder)\<close> with the \<^verbatim>\<open>g\<close> flag: matches are looked for from
  left to right; after an empty match the scan moves one character on and keeps that
  character. The placeholders hold no \<^verbatim>\<open>$\<close>, so they are inserted as they are.
\<close>

function replaceAll :: "reItem list \<Rightarrow> string \<Rightarrow> char option \<Rightarrow> string \<Rightarrow> string" where
  "replaceAll items repl prev rest =
     (case matchItems items prev rest of
        Some (prev', rest') \<Rightarrow>
          if length rest' < length rest then repl @ replaceAll items repl prev' rest'
          else repl @ (case rest of
                         [] \<Rightarrow> []
                       | x # xs \<Rightarrow> x # replaceAll items repl (Some x) xs)
      | None \<Rightarrow>
          (case rest of
             [] \<Rightarrow> []
           | x # xs \<Rightarrow> x # replaceAll items repl (Some x) xs))"
  by pat_completeness auto
termination
  by (relation "measure (\<lambda>(items, repl, prev, rest). length rest)") auto

declare replaceAll.simps [simp del]

section \<open>The normalizer\<close>

definition reservedKeywords :: "string list" where
  "reservedKeywords =
     [''if'', ''else'', ''for'', ''while'', ''do'', ''switch'', ''case'', ''break'', ''continue'',
      ''return'', ''function'', ''const'', ''let'', ''var'', ''class'', ''extends'', ''implements'',
      ''import'', ''export'', ''from'', ''default'', ''async'', ''await'', ''try'', ''catch'',
      ''finally'', ''throw'', ''new'', ''this'', ''super'', ''typeof'', ''instanceof'', ''in'', ''of'',
      ''true'', ''false'', ''null'', ''undefined'', ''void'', ''any'', ''string'', ''number'',
      ''boolean'', ''object'', ''interface'', ''type'', ''enum'', ''namespace'', ''module'',
      ''declare'', ''as'', ''is'']"

definition MAX_CODE_SIZE :: nat where
  "MAX_CODE_SIZE = 1 * 1024 * 1024"

definition MAX_IDENTIFIERS :: nat where
  "MAX_IDENTIFIERS = 10000"

text \<open>The template literal \<^verbatim>\<open>`__VAR${counter++}__`\<close>.\<close>

definition placeholderOf :: "nat \<Rightarrow> string" where
  "placeholderOf n = ''__VAR'' @ showNat n @ ''__''"

text \<open>
  \<^verbatim>\<open>identifiers.set(key, value)\<close> on a \<^verbatim>\<open>Map\<close>, which iterates in insertion order: a
  known key keeps its place, a new key goes to the end.
\<close>

fun mapSet :: "string \<Rightarrow> string \<Rightarrow> (string \<times> string) list \<Rightarrow> (string \<times> string) list" where
  "mapSet k v [] = [(k, v)]"
| "mapSet k v (p # ps) = (if fst p = k then (k, v) # ps else p # mapSet k v ps)"

record idState =
  identifiers :: "(string \<times> string) list"
  counter :: nat
  seen :: "string list"

text \<open>
  First pass of \<^verbatim>\<open>normalizeIdentifiers\<close>. Only the rule stops at \<^verbatim>\<open>MAX_IDENTIFIERS\<close>
  (\<^verbatim>\<open>break\<close>) and skips identifiers longer than 100 characters (\<^verbatim>\<open>continue\<close>).
\<close>

fun collectIdentifiers :: "site \<Rightarrow> string list \<Rightarrow> idState \<Rightarrow> idState" where
  "collectIdentifiers site [] st = st"
| "collectIdentifiers site (identifier # rest) st =
     (if site = Rule \<and> length (identifiers st) \<ge> MAX_IDENTIFIERS then st
      else if site = Rule \<and> length identifier > 100 then collectIdentifiers site rest st
      else if identifier \<notin> set reservedKeywords \<and> identifier \<notin> set (seen st) then
        collectIdentifiers site rest
          (st\<lparr>seen := identifier # seen st,
              identifiers := mapSet identifier (placeholderOf (counter st)) (identifiers st),
              counter := counter st + 1\<rparr>)
      else collectIdentifiers site rest st)"

text \<open>
  Second pass: one global replacement per collected identifier, in insertion order, each
  on the text the previous one left. The \<open>None\<close> branch stands for a pattern outside the
  modelled fragment and is never taken (\<open>compile_identifier\<close>).
\<close>

fun substitute :: "site \<Rightarrow> (string \<times> string) list \<Rightarrow> string \<Rightarrow> string" where
  "substitute site [] normalized = normalized"
| "substitute site ((identifier, placeholder) # rest) normalized =
     (case compile (regexSource site identifier) of
        Some regex \<Rightarrow> substitute site rest (replaceAll regex placeholder None normalized)
      | None \<Rightarrow> normalized)"

definition normalizeIdentifiers :: "site \<Rightarrow> string \<Rightarrow> string" where
  "normalizeIdentifiers site code =
     (if site = Rule \<and> length code > MAX_CODE_SIZE then code
      else
        let matches = matchAll None code;
            st = collectIdentifiers site matches \<lparr>identifiers = [], counter = 0, seen = []\<rparr>
        in substitute site (identifiers st) code)"

text \<open>The loop of \<^verbatim>\<open>normalizeCode\<close> over the lines, and \<^verbatim>\<open>normalizeCode\<close> itself.\<close>

definition normalizeLine :: "string \<Rightarrow> string" where
  "normalizeLine line =
     (let withoutComments = beforeFirst ''/*'' (beforeFirst ''//'' line)
      in collapseWhitespace (trim withoutComments))"

fun normalizeLines :: "string list \<Rightarrow> string list" where
  "normalizeLines [] = []"
| "normalizeLines (line # rest) =
     (let normalizedLine = normalizeLine line
      in if length normalizedLine > 0 then normalizedLine # normalizeLines rest
         else normalizeLines rest)"

definition normalizeCode :: "site \<Rightarrow> string \<Rightarrow> string" where
  "normalizeCode site code =
     (let normalized = normalizeLines (splitLines code);
          codeWithoutWhitespace = joinLines normalized
      in normalizeIdentifiers site codeWithoutWhitespace)"

section \<open>JavaScript numbers\<close>

text \<open>
  A JavaScript number is an IEEE 754 double, and every arithmetic operation returns the
  double nearest to the exact result, a tie going to the even mantissa. A double is
  modelled by the rational it denotes. For a positive rational \<open>x\<close>, \<open>binade x\<close> is the
  exponent \<open>e\<close> with \<open>2 powi e \<le> x\<close> and \<open>x < 2 powi (e + 1)\<close>; the doubles of that binade
  are the multiples of \<open>2 powi (e - 52)\<close>. The subnormal range and overflow are left out:
  the numbers rounded below are quotients of two array lengths (which are below
  \<^verbatim>\<open>2 ** 32\<close>) and the hundredfold of such a quotient.
\<close>

text \<open>For \<open>x\<close> not below 1: the number of halvings that bring \<open>x\<close> below 2.\<close>

function binadeUp :: "rat \<Rightarrow> nat" where
  "binadeUp x = (if x < 2 then 0 else Suc (binadeUp (x / 2)))"
  by pat_completeness auto
termination
proof (relation "measure (\<lambda>x. nat \<lfloor>x\<rfloor>)")
  show "wf (measure (\<lambda>x :: rat. nat \<lfloor>x\<rfloor>))" by simp
next
  fix x :: rat
  assume "\<not> x < 2"
  then have "2 \<le> \<lfloor>x\<rfloor>" by (simp only: le_floor_iff not_less of_int_numeral)
  then have f: "(2 :: rat) \<le> of_int \<lfloor>x\<rfloor>" by linarith
  have "x < of_int \<lfloor>x\<rfloor> + 1" using floor_correct [of x] by simp
  with f have "x / 2 < of_int \<lfloor>x\<rfloor>" by linarith
  then have "\<lfloor>x / 2\<rfloor> < \<lfloor>x\<rfloor>" by (simp only: floor_less_iff)
  moreover from \<open>2 \<le> \<lfloor>x\<rfloor>\<close> have "0 < \<lfloor>x\<rfloor>" by linarith
  ultimately show "(x / 2, x) \<in> measure (\<lambda>x. nat \<lfloor>x\<rfloor>)" by simp
qed

text \<open>For \<open>x\<close> between 0 and 1: the number of doublings that bring \<open>x\<close> to 1 or above.\<close>

function binadeDown :: "rat \<Rightarrow> nat" where
  "binadeDown x = (if x \<le> 0 \<or> 1 \<le> x then 0 else Suc (binadeDown (x * 2)))"
  by pat_completeness auto
termination
proof (relation "measure (\<lambda>x. nat \<lceil>1 / x\<rceil>)")
  show "wf (measure (\<lambda>x :: rat. nat \<lceil>1 / x\<rceil>))" by simp
next
  fix x :: rat
  assume "\<not> (x \<le> 0 \<or> 1 \<le> x)"
  then have x: "0 < x" "x < 1" by simp_all
  define y where "y = 1 / x"
  have y: "1 < y" unfolding y_def using x by (simp only: less_divide_eq_1_pos)
  have c: "y \<le> of_int \<lceil>y\<rceil>" by (rule le_of_int_ceiling)
  have "2 \<le> \<lceil>y\<rceil>" using y by (simp add: le_ceiling_iff)
  then have c2: "(2 :: rat) \<le> of_int \<lceil>y\<rceil>" by linarith
  from c c2 have "y / 2 \<le> of_int \<lceil>y\<rceil> - 1" by linarith
  then have "\<lceil>y / 2\<rceil> < \<lceil>y\<rceil>" by (simp only: ceiling_less_iff)
  moreover have "1 / (x * 2) = y / 2" unfolding y_def by simp
  moreover have "0 < \<lceil>y\<rceil>" using \<open>2 \<le> \<lceil>y\<rceil>\<close> by linarith
  ultimately have "nat \<lceil>1 / (x * 2)\<rceil> < nat \<lceil>y\<rceil>" by (simp only: zless_nat_conj)
  then show "(x * 2, x) \<in> measure (\<lambda>x. nat \<lceil>1 / x\<rceil>)"
    unfolding y_def by simp
qed

declare binadeUp.simps [simp del] binadeDown.simps [simp del]

definition binade :: "rat \<Rightarrow> int" where
  "binade x = (if 1 \<le> x then int (binadeUp x) else - int (binadeDown x))"

text \<open>The nearest integer, a tie going to the even one.\<close>

definition roundHalfEven :: "rat \<Rightarrow> int" where
  "roundHalfEven y =
     (let f = \<lfloor>y\<rfloor>; r = y - of_int f
      in if r < 1 / 2 then f else if 1 / 2 < r then f + 1 else if even f then f else f + 1)"

text \<open>The nearest double.\<close>

definition roundToDouble :: "rat \<Rightarrow> rat" where
  "roundToDouble x =
     (if x = 0 then 0
      else let ulp = 2 powi (binade \<bar>x\<bar> - 52)
           in of_int (roundHalfEven (x / ulp)) * ulp)"

section \<open>The similarity scorer\<close>

text \<open>The counting loop: positions below \<open>minLen\<close> at which the two line arrays agree.\<close>

fun countMatches :: "string list \<Rightarrow> string list \<Rightarrow> nat" where
  "countMatches (x # xs) (y # ys) = (if x = y then 1 else 0) + countMatches xs ys"
| "countMatches xs ys = 0"

text \<open>
  The score \<^verbatim>\<open>(matches / maxLen) * 100\<close> is computed in doubles: the quotient is rounded,
  and so is its product with 100.
\<close>

definition calculateSimilarity :: "site \<Rightarrow> string \<Rightarrow> string \<Rightarrow> rat" where
  "calculateSimilarity site code1 code2 =
     (let normalized1 = normalizeCode site code1;
          normalized2 = normalizeCode site code2
      in if normalized1 = normalized2 then 100
         else
           let lines1 = splitLines normalized1;
               lines2 = splitLines normalized2;
               maxLen = max (length lines1) (length lines2)
           in if maxLen = 0 then 0
              else roundToDouble
                     (roundToDouble (of_nat (countMatches lines1 lines2) / of_nat maxLen) * 100))"

section \<open>Configuration of the rule\<close>

text \<open>
  A value found in the options object. A finite JavaScript number is a rational; the
  three non-finite numbers are kept apart.
\<close>

datatype jsValue =
    JUndefined
  | JNull
  | JBool bool
  | JString string
  | JNumber rat
  | JNaN
  | JPosInfinity
  | JNegInfinity

definition MIN_DUPLICATION_LINES :: int where
  "MIN_DUPLICATION_LINES = 10"

definition MIN_SIMILARITY :: rat where
  "MIN_SIMILARITY = 80"

text \<open>
  The value of \<^verbatim>\<open>minLines\<close> in \<^verbatim>\<open>create\<close>: the default unless the option is a number
  with \<^verbatim>\<open>0 < x <= 1000\<close>, then \<^verbatim>\<open>Math.floor(x)\<close>. Every comparison with \<^verbatim>\<open>NaN\<close> is
  false, and no infinity passes both tests.
\<close>

fun create_minLines :: "jsValue \<Rightarrow> int" where
  "create_minLines (JNumber x) =
     (if x > 0 \<and> x \<le> 1000 then \<lfloor>x\<rfloor> else MIN_DUPLICATION_LINES)"
| "create_minLines v = MIN_DUPLICATION_LINES"

text \<open>The value of \<^verbatim>\<open>minSimilarity\<close> in \<^verbatim>\<open>create\<close>.\<close>

fun create_minSimilarity :: "jsValue \<Rightarrow> rat" where
  "create_minSimilarity (JNumber x) =
     (if x \<ge> 0 \<and> x \<le> 100 then max 0 (min 100 x) else MIN_SIMILARITY)"
| "create_minSimilarity v = MIN_SIMILARITY"

section \<open>The example blocks of the specification\<close>

definition blockTotal :: string where
  "blockTotal =
     ''calculateTotal(items){\<newline>  sum=0;\<newline>  for(i of items)\<newline>    sum+=i.price;\<newline>  return sum\<newline>}\<newline>;\<newline>;\<newline>;\<newline>;''"

definition blockSum :: string where
  "blockSum =
     ''calculateSum(products){\<newline>  total=0;\<newline>  for(p of products)\<newline>    total+=p.cost;\<newline>  return total\<newline>}\<newline>;\<newline>;\<newline>;\<newline>;''"

definition blockShape :: string where
  "blockShape =
     ''__VAR0__(__VAR1__){\<newline>__VAR2__=0;\<newline>for(__VAR3__ of __VAR1__)\<newline>__VAR2__+=__VAR3__.__VAR4__;\<newline>return __VAR2__\<newline>}\<newline>;\<newline>;\<newline>;\<newline>;''"

section \<open>The block extractor\<close>

record block =
  startLine :: int
  endLine :: int
  content :: string
  normalized :: string

text \<open>
  \<^verbatim>\<open>Array.prototype.slice(start, end)\<close>: a negative index counts from the end, every
  index is clamped to the array, and an end before the start gives the empty array.
\<close>

definition jsSlice :: "'a list \<Rightarrow> int \<Rightarrow> int \<Rightarrow> 'a list" where
  "jsSlice xs start fin =
     (let len = int (length xs);
          k = (if start < 0 then max (len + start) 0 else min start len);
          final = (if fin < 0 then max (len + fin) 0 else min fin len)
      in take (nat (final - k)) (drop (nat k) xs))"

text \<open>The test inside the loop over \<^verbatim>\<open>blockLines\<close>: the line counts as code.\<close>

definition isCodeLine :: "string \<Rightarrow> bool" where
  "isCodeLine line =
     (let trimmed = trim line
      in length trimmed > 0 \<and>
         \<not> prefix ''//'' trimmed \<and>
         \<not> prefix ''/*'' trimmed \<and>
         \<not> prefix ''*'' trimmed \<and>
         \<not> prefix ''*/'' trimmed)"

text \<open>
  The loop \<^verbatim>\<open>for (let i = 0; i <= lines.length - minLines; i += step)\<close>. The test
  \<^verbatim>\<open>nonEmptyLines.length >= minLines * 0.7\<close> is made on doubles; for an integer
  \<^verbatim>\<open>minLines\<close> the rounded product lies strictly between the same two integers as the
  exact one, or is the integer itself, so the test agrees with the exact
  \<open>10 * length \<ge> 7 * minLines\<close>.
\<close>

function extractLoop :: "site \<Rightarrow> string list \<Rightarrow> int \<Rightarrow> int \<Rightarrow> block list" where
  "extractLoop site lines minLines i =
     (if i \<le> int (length lines) - minLines then
        (let step = max 1 (minLines div 2);
             block = joinLines (jsSlice lines i (i + minLines));
             blockLines = splitLines block;
             nonEmptyLines = filter isCodeLine blockLines
         in (if 10 * int (length nonEmptyLines) \<ge> 7 * minLines
             then [\<lparr>startLine = i + 1, endLine = i + minLines, content = block,
                    normalized = normalizeCode site block\<rparr>]
             else [])
            @ extractLoop site lines minLines (i + step))
      else [])"
  by pat_completeness auto
termination
  by (relation "measure (\<lambda>(site, lines, minLines, i). nat (int (length lines) - minLines - i + 1))")
    auto

declare extractLoop.simps [simp del]

definition extractCodeBlocks :: "site \<Rightarrow> string \<Rightarrow> int \<Rightarrow> block list" where
  "extractCodeBlocks site text minLines = extractLoop site (splitLines text) minLines 0"

section \<open>The windows the specification describes\<close>

text \<open>
  The extractor in the words of the specification: the start positions are the multiples
  of the stride \<open>max 1 (minLines div 2)\<close> at which a window of \<open>minLines\<close> lines still fits
  into the buffer; a window is kept when its code lines are at least 70 percent of
  \<open>minLines\<close>.
\<close>

definition stride :: "nat \<Rightarrow> nat" where
  "stride minLines = max 1 (minLines div 2)"

definition windowStarts :: "nat \<Rightarrow> nat \<Rightarrow> nat list" where
  "windowStarts n minLines =
     filter (\<lambda>i. i + minLines \<le> n) (map (\<lambda>k. k * stride minLines) [0..<Suc n])"

definition window :: "string list \<Rightarrow> nat \<Rightarrow> nat \<Rightarrow> string list" where
  "window lines minLines i = take minLines (drop i lines)"

definition substantive :: "string list \<Rightarrow> nat \<Rightarrow> bool" where
  "substantive w minLines = (10 * length (filter isCodeLine w) \<ge> 7 * minLines)"

definition windowBlock :: "site \<Rightarrow> string list \<Rightarrow> nat \<Rightarrow> nat \<Rightarrow> block" where
  "windowBlock site lines minLines i =
     \<lparr>startLine = int i + 1, endLine = int i + int minLines,
      content = joinLines (window lines minLines i),
      normalized = normalizeCode site (joinLines (window lines minLines i))\<rparr>"

definition windowBlocks :: "site \<Rightarrow> string list \<Rightarrow> nat \<Rightarrow> block list" where
  "windowBlocks site lines minLines =
     map (windowBlock site lines minLines)
       (filter (\<lambda>i. substantive (window lines minLines i) minLines)
          (windowStarts (length lines) minLines))"

section \<open>The scan of the rule\<close>

definition MAX_CONTENT_SIZE :: nat where
  "MAX_CONTENT_SIZE = 10 * 1024 * 1024"

definition MAX_BLOCKS :: nat where
  "MAX_BLOCKS = 1000"

definition MAX_COMPARISONS :: nat where
  "MAX_COMPARISONS = 10000"

record ruleDuplicate =
  block :: block
  similarBlock :: block
  similarity :: int

text \<open>
  The state of the two nested loops of \<^verbatim>\<open>create\<close>: the counter, the duplicates pushed so
  far and, as a trace, the pairs handed to \<open>calculateSimilarity\<close>, in order.
\<close>

record ruleState =
  comparisonCount :: nat
  ruleDuplicates :: "ruleDuplicate list"
  scored :: "(block \<times> block) list"

text \<open>
  The loop over \<open>j\<close> for a fixed \<open>block1\<close>; \<open>rest\<close> holds the blocks behind it. The counter
  is incremented first; reaching the cap leaves the loop (\<^verbatim>\<open>break\<close>), a pair closer than
  \<open>minLines\<close> is passed over (\<^verbatim>\<open>continue\<close>). \<^verbatim>\<open>Math.round\<close> rounds halves up.
\<close>

fun comparisonLoop :: "int \<Rightarrow> rat \<Rightarrow> block \<Rightarrow> block list \<Rightarrow> ruleState \<Rightarrow> ruleState" where
  "comparisonLoop minLines minSimilarity block1 [] st = st"
| "comparisonLoop minLines minSimilarity block1 (block2 # rest) st =
     (let st1 = st\<lparr>comparisonCount := comparisonCount st + 1\<rparr>
      in if comparisonCount st1 \<ge> MAX_COMPARISONS then st1
         else
           let lineDistance = \<bar>startLine block1 - startLine block2\<bar>
           in if lineDistance < minLines then comparisonLoop minLines minSimilarity block1 rest st1
              else
                let sim = calculateSimilarity Rule (normalized block1) (normalized block2);
                    st2 = st1\<lparr>scored := scored st1 @ [(block1, block2)]\<rparr>
                in if sim \<ge> minSimilarity then
                     comparisonLoop minLines minSimilarity block1 rest
                       (st2\<lparr>ruleDuplicates := ruleDuplicates st2 @
                          [\<lparr>block = block1, similarBlock = block2,
                            similarity = \<lfloor>sim + 1 / 2\<rfloor>\<rparr>]\<rparr>)
                   else comparisonLoop minLines minSimilarity block1 rest st2)"

text \<open>The loop over \<open>i\<close>.\<close>

fun blockLoop :: "int \<Rightarrow> rat \<Rightarrow> block list \<Rightarrow> ruleState \<Rightarrow> ruleState" where
  "blockLoop minLines minSimilarity [] st = st"
| "blockLoop minLines minSimilarity (block1 # rest) st =
     (if comparisonCount st \<ge> MAX_COMPARISONS then st
      else blockLoop minLines minSimilarity rest
             (comparisonLoop minLines minSimilarity block1 rest st))"

text \<open>
  \<^verbatim>\<open>create\<close> on the options and the text of the file (the file name passed the
  exclusion tests): a text over the size limit is not analysed at all.
\<close>

definition create :: "jsValue \<Rightarrow> jsValue \<Rightarrow> string \<Rightarrow> ruleState" where
  "create optMinLines optMinSimilarity text =
     (let minLines = create_minLines optMinLines;
          minSimilarity = create_minSimilarity optMinSimilarity
      in if length text > MAX_CONTENT_SIZE
         then \<lparr>comparisonCount = 0, ruleDuplicates = [], scored = []\<rparr>
         else
           let limitedBlocks = take MAX_BLOCKS (extractCodeBlocks Rule text minLines)
           in blockLoop minLines minSimilarity limitedBlocks
                \<lparr>comparisonCount = 0, ruleDuplicates = [], scored = []\<rparr>)"

text \<open>Only the first duplicate is reported.\<close>

definition report :: "ruleState \<Rightarrow> ruleDuplicate option" where
  "report st = (case ruleDuplicates st of [] \<Rightarrow> None | firstDuplicate # _ \<Rightarrow> Some firstDuplicate)"

section \<open>The scan of the script\<close>

text \<open>\<^verbatim>\<open>{ file, ...block }\<close>.\<close>

record fileBlock = block +
  "file" :: string


record duplicate =
  blocks :: "fileBlock list"
  isSameFile :: bool
  fileCount :: nat

text \<open>Decimal rendering of an integer line number inside a template literal.\<close>

definition showInt :: "int \<Rightarrow> string" where
  "showInt i = (if i < 0 then CHR ''-'' # showNat (nat (- i)) else showNat (nat i))"

text \<open>The key \<^verbatim>\<open>`${block.file}:${block.startLine}`\<close>.\<close>

definition blockKey :: "fileBlock \<Rightarrow> string" where
  "blockKey b = file b @ '':'' @ showInt (startLine b)"

text \<open>\<^verbatim>\<open>block.normalized.substring(0, 50)\<close>.\<close>

definition hashOf :: "fileBlock \<Rightarrow> string" where
  "hashOf b = take 50 (normalized b)"

text \<open>
  First pass: \<^verbatim>\<open>blockMap\<close>, a \<^verbatim>\<open>Map\<close> from hash to array that iterates in insertion
  order.
\<close>

fun addToMap :: "string \<Rightarrow> fileBlock \<Rightarrow> (string \<times> fileBlock list) list \<Rightarrow>
    (string \<times> fileBlock list) list" where
  "addToMap h b [] = [(h, [b])]"
| "addToMap h b ((k, bs) # m) =
     (if k = h then (k, bs @ [b]) # m else (k, bs) # addToMap h b m)"

fun groupByHash :: "fileBlock list \<Rightarrow> (string \<times> fileBlock list) list \<Rightarrow>
    (string \<times> fileBlock list) list" where
  "groupByHash [] m = m"
| "groupByHash (b # rest) m = groupByHash rest (addToMap (hashOf b) b m)"

text \<open>
  The state of the second pass: the set \<^verbatim>\<open>processed\<close>, the groups pushed so far and, as
  a trace, the pairs handed to \<open>calculateSimilarity\<close>, in order.
\<close>

record scanState =
  processed :: "string set"
  duplicates :: "duplicate list"
  compared :: "(fileBlock \<times> fileBlock) list"

definition tooClose :: "int \<Rightarrow> fileBlock \<Rightarrow> fileBlock \<Rightarrow> bool" where
  "tooClose minLines block1 block2 =
     (file block1 = file block2 \<and> \<bar>startLine block1 - startLine block2\<bar> < minLines)"

text \<open>The loop over \<open>j\<close> for a fixed \<open>block1\<close>, with the array \<^verbatim>\<open>similar\<close>.\<close>

fun similarityLoop :: "int \<Rightarrow> rat \<Rightarrow> fileBlock \<Rightarrow> fileBlock list \<Rightarrow>
    fileBlock list \<times> scanState \<Rightarrow> fileBlock list \<times> scanState" where
  "similarityLoop minLines minSimilarity block1 [] (similar, st) = (similar, st)"
| "similarityLoop minLines minSimilarity block1 (block2 # rest) (similar, st) =
     (if blockKey block2 \<in> processed st then
        similarityLoop minLines minSimilarity block1 rest (similar, st)
      else if tooClose minLines block1 block2 then
        similarityLoop minLines minSimilarity block1 rest (similar, st)
      else
        let sim = calculateSimilarity Script (normalized block1) (normalized block2);
            st1 = st\<lparr>compared := compared st @ [(block1, block2)]\<rparr>
        in if sim \<ge> minSimilarity then
             similarityLoop minLines minSimilarity block1 rest
               (similar @ [block2], st1\<lparr>processed := insert (blockKey block2) (processed st1)\<rparr>)
           else similarityLoop minLines minSimilarity block1 rest (similar, st1))"

text \<open>The loop over \<open>i\<close> inside one bucket.\<close>

fun bucketLoop :: "int \<Rightarrow> rat \<Rightarrow> fileBlock list \<Rightarrow> scanState \<Rightarrow> scanState" where
  "bucketLoop minLines minSimilarity [] st = st"
| "bucketLoop minLines minSimilarity (block1 # rest) st =
     (if blockKey block1 \<in> processed st then bucketLoop minLines minSimilarity rest st
      else
        case similarityLoop minLines minSimilarity block1 rest ([block1], st) of
          (similar, st1) \<Rightarrow>
            if length similar > 1 then
              let uniqueFiles = remdups (map file similar)
              in bucketLoop minLines minSimilarity rest
                   (st1\<lparr>duplicates := duplicates st1 @
                          [\<lparr>blocks = similar, isSameFile = (length uniqueFiles = 1),
                            fileCount = length uniqueFiles\<rparr>],
                        processed := insert (blockKey block1) (processed st1)\<rparr>)
            else bucketLoop minLines minSimilarity rest st1)"

text \<open>The callback of \<^verbatim>\<open>blockMap.forEach\<close> and the iteration itself.\<close>

definition checkBucket :: "int \<Rightarrow> rat \<Rightarrow> fileBlock list \<Rightarrow> scanState \<Rightarrow> scanState" where
  "checkBucket minLines minSimilarity bs st =
     (if length bs < 2 then st else bucketLoop minLines minSimilarity bs st)"

fun forEachBucket :: "int \<Rightarrow> rat \<Rightarrow> (string \<times> fileBlock list) list \<Rightarrow> scanState \<Rightarrow> scanState" where
  "forEachBucket minLines minSimilarity [] st = st"
| "forEachBucket minLines minSimilarity ((h, bs) # m) st =
     forEachBucket minLines minSimilarity m (checkBucket minLines minSimilarity bs st)"

definition findDuplicates :: "int \<Rightarrow> rat \<Rightarrow> fileBlock list \<Rightarrow> scanState" where
  "findDuplicates minLines minSimilarity allBlocks =
     forEachBucket minLines minSimilarity (groupByHash allBlocks [])
       \<lparr>processed = {}, duplicates = [], compared = []\<rparr>"



section \<open>Inputs used in the examples\<close>


text \<open>A file of ten equal lines of code followed by ten equal lines of numbers.\<close>

definition twoHalves :: string where
  "twoHalves =
     ''a\<newline>a\<newline>a\<newline>a\<newline>a\<newline>a\<newline>a\<newline>a\<newline>a\<newline>a\<newline>1\<newline>1\<newline>1\<newline>1\<newline>1\<newline>1\<newline>1\<newline>1\<newline>1\<newline>1''"






text \<open>Every block of a bucket has the bucket's key as its hash.\<close>

definition wellBucketed :: "(string \<times> fileBlock list) list \<Rightarrow> bool" where
  "wellBucketed m = list_all (\<lambda>(k, bs). list_all (\<lambda>b. hashOf b = k) bs) m"







section \<open>The normal form of the comment and white-space stage\<close>

text \<open>
  What the first stage of \<open>normalizeCode\<close> leaves: a text that neither starts nor ends
  with white space, whose only white space is single spaces and single line feeds, and
  that holds neither \<^verbatim>\<open>//\<close> nor \<^verbatim>\<open>/*\<close>. \<open>chain\<close> reads the text from left to right
  and remembers the class of the character before: white space (or the start of the
  text), a slash, or anything else.
\<close>

datatype pclass = PW | PS | PO

fun pclassOf :: "char \<Rightarrow> pclass" where
  "pclassOf c = (if isWhiteSpace c then PW else if c = CHR ''/'' then PS else PO)"

fun chain :: "pclass \<Rightarrow> string \<Rightarrow> bool" where
  "chain pc [] = (pc \<noteq> PW)"
| "chain pc (c # cs) =
     ((if isWhiteSpace c then (c = CHR '' '' \<or> c = newline) \<and> pc \<noteq> PW else True) \<and>
      (if pc = PS then c \<noteq> CHR ''/'' \<and> c \<noteq> CHR ''*'' else True) \<and>
      chain (pclassOf c) cs)"

definition normalForm :: "string \<Rightarrow> bool" where
  "normalForm t = (t = [] \<or> chain PW t)"

text \<open>A replacement text that cannot break the normal form.\<close>

definition solid :: "string \<Rightarrow> bool" where
  "solid r =
     (r \<noteq> [] \<and> list_all (\<lambda>c. \<not> isWhiteSpace c \<and> c \<noteq> CHR ''/'' \<and> c \<noteq> CHR ''*'') r)"

text \<open>No \<open>a\<close> directly followed by \<open>b\<close>; the flag tells whether an \<open>a\<close> stands before the text.\<close>

fun noPair :: "char \<Rightarrow> char \<Rightarrow> bool \<Rightarrow> string \<Rightarrow> bool" where
  "noPair a b afterA [] = True"
| "noPair a b afterA (c # cs) = (\<not> (afterA \<and> c = b) \<and> noPair a b (c = a) cs)"

text \<open>The value of \<^verbatim>\<open>codeWithoutWhitespace\<close> in \<^verbatim>\<open>normalizeCode\<close>: the result of the first stage.\<close>

definition codeWithoutWhitespace :: "string \<Rightarrow> string" where
  "codeWithoutWhitespace code = joinLines (normalizeLines (splitLines code))"

section \<open>Evaluation rules\<close>

lemmas char_class_defs =
  newline_def backslash_def isWhiteSpace_def isDigit_def isLetter_def isWordChar_def
  isIdentStart_def isIdentPart_def isSyntaxChar_def

lemmas normalizer_defs =
  normalizeCode_def normalizeLine_def normalizeIdentifiers_def Let_def trim_def wordBoundary_def
  reservedKeywords_def MAX_CODE_SIZE_def MAX_IDENTIFIERS_def placeholderOf_def showNat.simps
  replaceAll.simps

text \<open>The floor of a quotient of two numerals.\<close>

lemma floor_numeral_divide: "\<lfloor>numeral a / numeral b :: rat\<rfloor> = numeral a div numeral b"
  using floor_divide_of_int_eq [of "numeral a" "numeral b", where ?'a = rat] by simp

lemmas double_defs =
  roundToDouble_def roundHalfEven_def binade_def binadeUp.simps binadeDown.simps
  floor_numeral_divide

text \<open>One round of the extractor's loop with the local bindings expanded.\<close>

lemma extractLoop_unfold:
  "extractLoop site lines minLines i =
     (if i \<le> int (length lines) - minLines then
        (if 10 * int (length (filter isCodeLine
               (splitLines (joinLines (jsSlice lines i (i + minLines)))))) \<ge> 7 * minLines
         then [\<lparr>startLine = i + 1, endLine = i + minLines,
                content = joinLines (jsSlice lines i (i + minLines)),
                normalized = normalizeCode site (joinLines (jsSlice lines i (i + minLines)))\<rparr>]
         else [])
        @ extractLoop site lines minLines (i + max 1 (minLines div 2))
      else [])"
  by (subst extractLoop.simps) (simp only: Let_def)

lemmas extractor_defs =
  extractCodeBlocks_def extractLoop_unfold jsSlice_def isCodeLine_def


lemmas rule_defs =
  create_def report_def MAX_CONTENT_SIZE_def MAX_BLOCKS_def MAX_COMPARISONS_def
  MIN_DUPLICATION_LINES_def MIN_SIMILARITY_def

section \<open>Rounding to a double\<close>

lemma binadeUp_bounds: "1 \<le> x \<Longrightarrow> 2 ^ binadeUp x \<le> x \<and> x < 2 ^ Suc (binadeUp x)"
proof (induction x rule: binadeUp.induct)
  case (1 x)
  show ?case
  proof (cases "x < 2")
    case True
    with "1.prems" show ?thesis by (subst (1 2) binadeUp.simps) simp
  next
    case False
    then have "1 \<le> x / 2" by simp
    with "1.IH" False have "2 ^ binadeUp (x / 2) \<le> x / 2 \<and> x / 2 < 2 ^ Suc (binadeUp (x / 2))"
      by simp
    with False show ?thesis by (subst (1 2) binadeUp.simps) simp
  qed
qed

lemma binadeDown_bounds:
  "0 < x \<Longrightarrow> x < 1 \<Longrightarrow> 1 \<le> x * 2 ^ binadeDown x \<and> x * 2 ^ binadeDown x < 2"
proof (induction x rule: binadeDown.induct)
  case (1 x)
  show ?case
  proof (cases "x * 2 < 1")
    case True
    with "1.IH" "1.prems" have "1 \<le> x * 2 * 2 ^ binadeDown (x * 2) \<and>
        x * 2 * 2 ^ binadeDown (x * 2) < 2"
      by simp
    with "1.prems" show ?thesis by (subst (1 2) binadeDown.simps) (simp add: mult.assoc)
  next
    case False
    then have "binadeDown (x * 2) = 0" by (subst binadeDown.simps) simp
    with False "1.prems" show ?thesis by (subst (1 2) binadeDown.simps) simp
  qed
qed

lemma binade_bounds:
  assumes "0 < x"
  shows "2 powi binade x \<le> x \<and> x < 2 powi (binade x + 1)"
proof (cases "1 \<le> x")
  case True
  with binadeUp_bounds [of x] show ?thesis
    by (simp add: binade_def power_int_add)
next
  case False
  with assms binadeDown_bounds [of x] have b: "1 \<le> x * 2 ^ binadeDown x" "x * 2 ^ binadeDown x < 2"
    by simp_all
  have p: "(0 :: rat) < 2 ^ binadeDown x" by simp
  from b p have "1 / 2 ^ binadeDown x \<le> x" "x < 2 / 2 ^ binadeDown x"
    by (simp_all add: field_simps)
  moreover have "(2 :: rat) powi (- int (binadeDown x)) = 1 / 2 ^ binadeDown x"
    by (simp add: power_int_minus field_simps)
  moreover have "(2 :: rat) powi (- int (binadeDown x) + 1) = 2 / 2 ^ binadeDown x"
    using power_int_add [of "2 :: rat" "- int (binadeDown x)" 1]
    by (simp only: power_int_minus power_int_of_nat power_int_1_right) (simp add: divide_inverse)
  ultimately show ?thesis
    using False by (simp add: binade_def)
qed

lemma roundHalfEven_le: "y \<le> of_int N \<Longrightarrow> roundHalfEven y \<le> N"
proof -
  assume le: "y \<le> of_int N"
  then have f: "\<lfloor>y\<rfloor> \<le> N" by (simp add: floor_le_iff)
  show ?thesis
  proof (cases "\<lfloor>y\<rfloor> = N")
    case True
    with le have "y - of_int \<lfloor>y\<rfloor> \<le> 0" by simp
    then show ?thesis using True by (simp add: roundHalfEven_def Let_def)
  next
    case False
    with f have "\<lfloor>y\<rfloor> + 1 \<le> N" by simp
    with f show ?thesis by (simp add: roundHalfEven_def Let_def)
  qed
qed

lemma roundHalfEven_nonneg: "0 \<le> y \<Longrightarrow> 0 \<le> roundHalfEven y"
  by (simp add: roundHalfEven_def Let_def)

lemma roundToDouble_nonneg: "0 \<le> x \<Longrightarrow> 0 \<le> roundToDouble x"
  by (simp add: roundToDouble_def Let_def roundHalfEven_nonneg)

lemma roundToDouble_le_power:
  assumes "0 < x" and "x \<le> 2 powi k"
  shows "roundToDouble x \<le> 2 powi k"
proof -
  let ?e = "binade x"
  let ?ulp = "(2 :: rat) powi (?e - 52)"
  have ulp: "0 < ?ulp" by simp
  from assms binade_bounds [of x] have lo: "2 powi ?e \<le> x" and hi: "x < 2 powi (?e + 1)"
    by simp_all
  have "x / ?ulp \<le> of_int (2 ^ 53)"
  proof -
    have "x / ?ulp < 2 powi (?e + 1) / ?ulp" using hi ulp by (simp add: divide_strict_right_mono)
    also have "\<dots> = 2 powi 53" by (simp add: power_int_diff power_int_add)
    finally show ?thesis by simp
  qed
  then have "roundHalfEven (x / ?ulp) \<le> 2 ^ 53" by (rule roundHalfEven_le)
  then have "rat_of_int (roundHalfEven (x / ?ulp)) \<le> 2 ^ 53"
    by (metis of_int_le_iff of_int_numeral of_int_power)
  then have "of_int (roundHalfEven (x / ?ulp)) * ?ulp \<le> 2 ^ 53 * ?ulp"
    using ulp by (simp add: mult_right_mono)
  also have "2 ^ 53 * ?ulp = 2 powi (?e + 1)" by (simp add: power_int_diff power_int_add)
  finally have r: "roundToDouble x \<le> 2 powi (?e + 1)"
    using assms(1) by (simp add: roundToDouble_def Let_def)
  show ?thesis
  proof (cases "?e + 1 \<le> k")
    case True
    then have "(2 :: rat) powi (?e + 1) \<le> 2 powi k" by (simp add: power_int_increasing)
    with r show ?thesis by simp
  next
    case False
    then have "k \<le> ?e" by simp
    then have "(2 :: rat) powi k \<le> 2 powi ?e" by (simp add: power_int_increasing)
    with lo assms(2) have x: "x = 2 powi ?e" and k: "(2 :: rat) powi k = 2 powi ?e" by simp_all
    have "x / ?ulp = of_int (2 ^ 52)"
      by (subst (1) x) (simp add: power_int_diff)
    then have "roundHalfEven (x / ?ulp) = 2 ^ 52"
      by (simp add: roundHalfEven_def Let_def)
    then have "roundToDouble x = 2 ^ 52 * ?ulp"
      using assms(1) by (simp add: roundToDouble_def Let_def)
    also have "\<dots> = 2 powi ?e" by (simp add: power_int_diff)
    finally show ?thesis using k by simp
  qed
qed

lemma roundToDouble_0 [simp]: "roundToDouble 0 = 0"
  by (simp add: roundToDouble_def)

lemma roundToDouble_le_1: "0 \<le> x \<Longrightarrow> x \<le> 1 \<Longrightarrow> roundToDouble x \<le> 1"
proof (cases "x = 0")
  case True
  then show ?thesis by (simp only: roundToDouble_0)
next
  case False
  assume "0 \<le> x" and "x \<le> 1"
  with False have "0 < x" and "x \<le> 2 powi 0" by simp_all
  then have "roundToDouble x \<le> 2 powi 0" by (rule roundToDouble_le_power)
  then show ?thesis by simp
qed

lemma roundToDouble_le_100:
  assumes "0 \<le> x" and "x \<le> 100"
  shows "roundToDouble x \<le> 100"
proof (cases "x \<le> 64")
  case True
  show ?thesis
  proof (cases "x = 0")
    case True
    then show ?thesis by (simp only: roundToDouble_0)
  next
    case False
    with assms(1) True have "0 < x" and "x \<le> 2 powi 6" by simp_all
    then have "roundToDouble x \<le> 2 powi 6" by (rule roundToDouble_le_power)
    then show ?thesis by simp
  qed
next
  case False
  then have x: "64 < x" by simp
  then have pos: "0 < x" by simp
  from binade_bounds [OF pos] have lo: "2 powi binade x \<le> x" and hi: "x < 2 powi (binade x + 1)"
    by simp_all
  have e: "binade x = 6"
  proof (rule antisym)
    show "binade x \<le> 6"
    proof (rule ccontr)
      assume "\<not> binade x \<le> 6"
      then have "7 \<le> binade x" by simp
      then have "(2 :: rat) powi 7 \<le> 2 powi binade x" by (intro power_int_increasing) simp_all
      moreover have "(2 :: rat) powi 7 = 128" by simp
      ultimately show False using lo assms(2) by linarith
    qed
    show "6 \<le> binade x"
    proof (rule ccontr)
      assume "\<not> 6 \<le> binade x"
      then have "binade x + 1 \<le> 6" by simp
      then have "(2 :: rat) powi (binade x + 1) \<le> 2 powi 6"
        by (intro power_int_increasing) simp_all
      moreover have "(2 :: rat) powi 6 = 64" by simp
      ultimately show False using hi x by linarith
    qed
  qed
  have "\<bar>x\<bar> = x" using pos by simp
  then have ulp: "(2 :: rat) powi (binade \<bar>x\<bar> - 52) = 1 / 2 ^ 46"
    by (simp only: e) simp
  have "x / (1 / 2 ^ 46) \<le> of_int (100 * 2 ^ 46)" using assms(2) by simp
  then have "roundHalfEven (x / (1 / 2 ^ 46)) \<le> 100 * 2 ^ 46" by (rule roundHalfEven_le)
  then have "rat_of_int (roundHalfEven (x / (1 / 2 ^ 46))) \<le> rat_of_int (100 * 2 ^ 46)"
    by (simp only: of_int_le_iff)
  then have "rat_of_int (roundHalfEven (x / (1 / 2 ^ 46))) * (1 / 2 ^ 46) \<le> 100"
    by simp
  with pos show ?thesis
    by (simp only: roundToDouble_def Let_def ulp) simp
qed

section \<open>The similarity scorer: symmetry and the empty blocks\<close>

lemma countMatches_commute: "countMatches xs ys = countMatches ys xs"
  by (induction xs ys rule: countMatches.induct) auto

text \<open>
  C9. For every pair of inputs, at either call site, \<open>calculateSimilarity a b\<close> equals
  \<open>calculateSimilarity b a\<close>.
\<close>

theorem calculateSimilarity_symmetric:
  "calculateSimilarity site a b = calculateSimilarity site b a"
proof (cases "normalizeCode site a = normalizeCode site b")
  case True
  then show ?thesis by (simp add: calculateSimilarity_def)
next
  case False
  then have "normalizeCode site b \<noteq> normalizeCode site a" by simp
  with False show ?thesis
    by (simp add: calculateSimilarity_def Let_def countMatches_commute max.commute)
qed

lemma splitLines_not_Nil: "splitLines s \<noteq> []"
  by (induction s) (auto split: list.splits)

lemma calculateSimilarity_same_normal_form:
  "normalizeCode site a = normalizeCode site b \<Longrightarrow> calculateSimilarity site a b = 100"
  by (simp add: calculateSimilarity_def)

lemma countMatches_le: "countMatches xs ys \<le> max (length xs) (length ys)"
  by (induction xs ys rule: countMatches.induct) auto

lemma calculateSimilarity_range:
  "0 \<le> calculateSimilarity site a b \<and> calculateSimilarity site a b \<le> 100"
proof (cases "normalizeCode site a = normalizeCode site b")
  case True
  then show ?thesis by (simp add: calculateSimilarity_def)
next
  case False
  let ?l1 = "splitLines (normalizeCode site a)" and ?l2 = "splitLines (normalizeCode site b)"
  let ?m = "max (length ?l1) (length ?l2)"
  have "0 < length ?l1" using splitLines_not_Nil [of "normalizeCode site a"] by simp
  then have pos: "0 < ?m" by (simp add: less_max_iff_disj)
  have m0: "\<not> ?m = 0" using pos by linarith
  let ?q = "rat_of_nat (countMatches ?l1 ?l2) / rat_of_nat ?m"
  have score: "calculateSimilarity site a b = roundToDouble (roundToDouble ?q * 100)"
    by (simp only: calculateSimilarity_def Let_def False m0 if_False)
  have "rat_of_nat (countMatches ?l1 ?l2) \<le> rat_of_nat ?m"
    using countMatches_le [of ?l1 ?l2] by (simp only: of_nat_le_iff)
  moreover have "0 < rat_of_nat ?m" using pos by (simp only: of_nat_0_less_iff)
  ultimately have "?q \<le> 1"
    by (simp only: divide_le_eq_1_pos)
  moreover have "0 \<le> ?q" by simp
  ultimately have "0 \<le> roundToDouble ?q" and "roundToDouble ?q \<le> 1"
    by (simp_all only: roundToDouble_nonneg roundToDouble_le_1)
  moreover have "0 \<le> q * 100 \<and> q * 100 \<le> 100" if "0 \<le> q" and "q \<le> 1" for q :: rat
    using that by simp
  ultimately have "0 \<le> roundToDouble ?q * 100" and "roundToDouble ?q * 100 \<le> 100"
    by blast+
  then have "0 \<le> roundToDouble (roundToDouble ?q * 100)"
    and "roundToDouble (roundToDouble ?q * 100) \<le> 100"
    by (simp_all only: roundToDouble_nonneg roundToDouble_le_100)
  then show ?thesis
    unfolding score by blast
qed

lemma normalizeCode_empty_examples:
  "normalizeCode Rule '''' = '''' \<and> normalizeCode Rule ''  // note'' = '''' \<and>
   normalizeCode Script '''' = '''' \<and> normalizeCode Script ''  // note'' = ''''"
  by (simp add: normalizer_defs char_class_defs)

text \<open>
  C1, as amended. Two blocks that both normalize to the empty string score 100: the
  equality test of the two normal forms comes first. The score is defined on all inputs
  and lies between 0 and 100; the line arrays are never empty, so the guard for a maximal
  length of zero is never reached and nothing is divided by zero.
\<close>

theorem empty_blocks_score_100:
  "(normalizeCode site a = [] \<and> normalizeCode site b = [] \<longrightarrow>
      calculateSimilarity site a b = 100) \<and>
   0 \<le> calculateSimilarity site a b \<and> calculateSimilarity site a b \<le> 100 \<and>
   splitLines (normalizeCode site a) \<noteq> []"
  using calculateSimilarity_range [of site a b]
  by (simp add: calculateSimilarity_def splitLines_not_Nil)

theorem empty_blocks_score_100_witness:
  "normalizeCode Script '''' = [] \<and> normalizeCode Script ''  // note'' = [] \<and>
   calculateSimilarity Script '''' ''  // note'' = 100"
  using empty_blocks_score_100 [of Script "''''" "''  // note''"] normalizeCode_empty_examples
  by simp

text \<open>
  C1 as stated fails: the empty block and a block that holds only a comment both
  normalize to the empty string, and their score is 100, not 0, at both sites.
\<close>

theorem calculateSimilarity_empty_blocks:
  "normalizeCode Rule '''' = '''' \<and> normalizeCode Rule ''  // note'' = '''' \<and>
   calculateSimilarity Rule '''' ''  // note'' = 100 \<and>
   calculateSimilarity Rule '''' ''  // note'' \<noteq> 0 \<and>
   normalizeCode Script '''' = '''' \<and> normalizeCode Script ''  // note'' = '''' \<and>
   calculateSimilarity Script '''' ''  // note'' = 100 \<and>
   calculateSimilarity Script '''' ''  // note'' \<noteq> 0"
  by (simp add: calculateSimilarity_def normalizeCode_empty_examples)

section \<open>Identifier canonicalization on the example of the specification\<close>

lemma length_example_blocks:
  "length (splitLines blockTotal) = 10 \<and> length (splitLines blockSum) = 10"
  by (simp add: blockTotal_def blockSum_def newline_def)

lemma normalizeCode_blockTotal_Rule: "normalizeCode Rule blockTotal = blockShape"
  by (simp add: blockTotal_def blockShape_def normalizer_defs char_class_defs)

lemma normalizeCode_blockSum_Rule: "normalizeCode Rule blockSum = blockShape"
  by (simp add: blockSum_def blockShape_def normalizer_defs char_class_defs)




section \<open>Escaping of identifiers\<close>

lemma greedyIdent_identPart:
  "greedyIdent c cs = Some k \<Longrightarrow> k \<le> length cs \<and> list_all isIdentPart (take k cs)"
proof (induction cs arbitrary: c k)
  case Nil
  then show ?case by (simp split: if_splits)
next
  case (Cons x xs)
  show ?case
  proof (cases "isIdentPart x")
    case True
    show ?thesis
    proof (cases "greedyIdent x xs")
      case None
      with Cons.prems True show ?thesis by (simp split: if_splits)
    next
      case (Some j)
      with Cons.prems True have "k = Suc j" by simp
      with Cons.IH [OF Some] True show ?thesis by simp
    qed
  next
    case False
    with Cons.prems show ?thesis by (simp split: if_splits)
  qed
qed

lemma identStart_identPart: "isIdentStart c \<Longrightarrow> isIdentPart c"
  by (auto simp: isIdentStart_def isIdentPart_def)

lemma matchAll_identPart: "list_all (list_all isIdentPart) (matchAll prev s)"
proof (induction prev s rule: matchAll.induct)
  case (1 prev)
  then show ?case by simp
next
  case (2 prev c cs)
  show ?case
  proof (cases "wordBoundary prev (c # cs) \<and> isIdentStart c")
    case True
    show ?thesis
    proof (cases "greedyIdent c cs")
      case None
      with True 2 show ?thesis by simp
    next
      case (Some k)
      with True 2 greedyIdent_identPart [OF Some] show ?thesis
        by (simp add: identStart_identPart)
    qed
  next
    case False
    with 2 show ?thesis by auto
  qed
qed

lemma syntax_not_b: "\<not> isSyntaxChar CHR ''b''"
  by (simp add: isSyntaxChar_def backslash_def)

lemma compile_escaped:
  "compile (escapeRegExp ident @ [backslash, CHR ''b'']) = Some (map Lit ident @ [WordBoundary])"
proof (induction ident)
  case Nil
  then show ?case by simp
next
  case (Cons c cs)
  obtain d ds where rest: "escapeRegExp cs @ [backslash, CHR ''b''] = d # ds"
    by (cases "escapeRegExp cs @ [backslash, CHR ''b'']") auto
  show ?case
  proof (cases "isSyntaxChar c")
    case True
    then have "c \<noteq> CHR ''b''" using syntax_not_b by auto
    with True Cons show ?thesis by simp
  next
    case False
    then have "c \<noteq> backslash" and "c \<noteq> CHR ''$''"
      by (auto simp: isSyntaxChar_def)
    with False Cons rest show ?thesis by simp
  qed
qed

text \<open>In the rule every character of the identifier is matched as itself.\<close>

lemma compile_regexSource_Rule:
  "compile (regexSource Rule ident) = Some (WordBoundary # map Lit ident @ [WordBoundary])"
  by (simp add: compile_escaped)

lemma identPart_plain:
  "isIdentPart c \<Longrightarrow> c \<noteq> CHR ''$'' \<Longrightarrow> \<not> isSyntaxChar c \<and> c \<noteq> backslash"
  by (auto simp: char_class_defs Let_def)

lemma compile_raw:
  "list_all isIdentPart ident \<Longrightarrow>
   compile (ident @ [backslash, CHR ''b'']) =
     Some (map (\<lambda>c. if c = CHR ''$'' then EndOfInput else Lit c) ident @ [WordBoundary])"
proof (induction ident)
  case Nil
  then show ?case by simp
next
  case (Cons c cs)
  obtain d ds where rest: "cs @ [backslash, CHR ''b''] = d # ds"
    by (cases "cs @ [backslash, CHR ''b'']") auto
  show ?case
  proof (cases "c = CHR ''$''")
    case True
    then have "c \<noteq> backslash" by (simp add: backslash_def)
    with True Cons rest show ?thesis by simp
  next
    case False
    with Cons.prems have "\<not> isSyntaxChar c" and "c \<noteq> backslash"
      using identPart_plain by auto
    with False Cons rest show ?thesis by simp
  qed
qed

lemma compile_regexSource_Script:
  "list_all isIdentPart ident \<Longrightarrow>
   compile (regexSource Script ident) =
     Some (WordBoundary # map (\<lambda>c. if c = CHR ''$'' then EndOfInput else Lit c) ident @
       [WordBoundary])"
  by (simp add: compile_raw)

lemma compile_regexSource_defined:
  "list_all isIdentPart ident \<Longrightarrow> compile (regexSource site ident) \<noteq> None"
  by (cases site) (simp_all add: compile_regexSource_Rule compile_regexSource_Script del: regexSource.simps)

lemma mapSet_keys:
  "list_all (\<lambda>entry. P (fst entry)) m \<Longrightarrow> P k \<Longrightarrow> list_all (\<lambda>entry. P (fst entry)) (mapSet k v m)"
  by (induction m) auto

lemma collectIdentifiers_keys:
  "list_all (\<lambda>entry. P (fst entry)) (identifiers st) \<Longrightarrow> list_all P matches \<Longrightarrow>
   list_all (\<lambda>entry. P (fst entry)) (identifiers (collectIdentifiers site matches st))"
  by (induction matches arbitrary: st) (auto simp: mapSet_keys)

text \<open>Every pattern the second pass builds compiles: the \<open>None\<close> branch of \<open>substitute\<close> is dead.\<close>

lemma compile_identifier:
  "list_all (\<lambda>entry. compile (regexSource site (fst entry)) \<noteq> None)
     (identifiers (collectIdentifiers site (matchAll None code)
        \<lparr>identifiers = [], counter = 0, seen = []\<rparr>))"
proof -
  have "list_all (\<lambda>entry. list_all isIdentPart (fst entry))
      (identifiers (collectIdentifiers site (matchAll None code)
        \<lparr>identifiers = [], counter = 0, seen = []\<rparr>))"
    by (rule collectIdentifiers_keys) (simp_all add: matchAll_identPart)
  then show ?thesis
    by (rule list.pred_mono_strong) (rule compile_regexSource_defined)
qed

text \<open>
  C4. The script interpolates the identifier into the pattern unescaped. For the
  identifier \<^verbatim>\<open>a$b\<close> the pattern is \<^verbatim>\<open>\ba$b\b\<close>, whose \<^verbatim>\<open>$\<close> is the end-of-input
  assertion, so the identifier is collected but never replaced; the rule escapes it and
  replaces it.
\<close>

theorem script_identifier_not_escaped:
  "matchAll None ''a$b'' = [''a$b''] \<and>
   regexSource Script ''a$b'' = [backslash, CHR ''b''] @ ''a$b'' @ [backslash, CHR ''b''] \<and>
   compile (regexSource Script ''a$b'') =
     Some [WordBoundary, Lit CHR ''a'', EndOfInput, Lit CHR ''b'', WordBoundary] \<and>
   normalizeIdentifiers Script ''a$b'' = ''a$b'' \<and>
   compile (regexSource Rule ''a$b'') =
     Some [WordBoundary, Lit CHR ''a'', Lit CHR ''$'', Lit CHR ''b'', WordBoundary] \<and>
   normalizeIdentifiers Rule ''a$b'' = ''__VAR0__''"
  by (simp add: normalizer_defs char_class_defs)

section \<open>Validation of the minimum block length\<close>

lemma create_minLines_range: "0 \<le> create_minLines v \<and> create_minLines v \<le> 1000"
proof (cases v)
  case (JNumber x)
  then show ?thesis
    by (auto simp: MIN_DUPLICATION_LINES_def floor_le_iff le_floor_iff)
qed (simp_all add: MIN_DUPLICATION_LINES_def)

text \<open>
  C5. The range test is made on the option before \<^verbatim>\<open>Math.floor\<close>: the fraction 1/2
  passes \<^verbatim>\<open>0 < x\<close> and is floored to 0, so the effective minimum block length is 0.
\<close>

theorem create_minLines_fraction: "create_minLines (JNumber (1 / 2)) = 0"
  by (simp add: floor_eq_iff)

section \<open>The block extractor emits the windows of the specification\<close>

lemma splitLines_no_newline: "l \<in> set (splitLines s) \<Longrightarrow> newline \<notin> set l"
  by (induction s arbitrary: l) (auto split: list.splits if_splits)

lemma splitLines_single: "newline \<notin> set l \<Longrightarrow> splitLines l = [l]"
  by (induction l) auto

lemma splitLines_append: "newline \<notin> set l \<Longrightarrow> splitLines (l @ newline # r) = l # splitLines r"
  by (induction l) auto

lemma splitLines_joinLines:
  "ls \<noteq> [] \<Longrightarrow> (\<forall>l\<in>set ls. newline \<notin> set l) \<Longrightarrow> splitLines (joinLines ls) = ls"
  by (induction ls rule: joinLines.induct) (auto simp: splitLines_single splitLines_append)

lemma isCodeLine_Nil: "\<not> isCodeLine []"
  by (simp add: isCodeLine_def trim_def)

lemma codeLines_splitLines_joinLines:
  assumes "\<forall>l\<in>set w. newline \<notin> set l"
  shows "filter isCodeLine (splitLines (joinLines w)) = filter isCodeLine w"
proof (cases "w = []")
  case True
  then show ?thesis by (simp add: isCodeLine_Nil)
next
  case False
  with assms show ?thesis by (simp add: splitLines_joinLines)
qed

lemma jsSlice_window:
  "i + m \<le> length xs \<Longrightarrow> jsSlice xs (int i) (int i + int m) = take m (drop i xs)"
  by (simp add: jsSlice_def Let_def min_def)

lemma stride_int: "max 1 (int m div 2) = int (stride m)"
  by (simp add: stride_def zdiv_int)

lemma stride_pos: "0 < stride m"
  by (simp add: stride_def)

lemma le_mult_stride: "k \<le> k * stride m"
  using stride_pos [of m] by (cases "stride m") auto

text \<open>One round of the loop, at a natural position.\<close>

lemma extractLoop_step:
  assumes "\<forall>l\<in>set lines. newline \<notin> set l"
  shows "extractLoop site lines (int m) (int i) =
     (if i + m \<le> length lines then
        (if substantive (window lines m i) m then [windowBlock site lines m i] else [])
        @ extractLoop site lines (int m) (int (i + stride m))
      else [])"
proof (cases "i + m \<le> length lines")
  case True
  have nl: "\<forall>l\<in>set (window lines m i). newline \<notin> set l"
    using assms unfolding window_def by (meson in_set_dropD in_set_takeD)
  have guard: "int i \<le> int (length lines) - int m" using True by simp
  have slice: "jsSlice lines (int i) (int i + int m) = window lines m i"
    using True by (simp add: jsSlice_window window_def)
  have count: "filter isCodeLine (splitLines (joinLines (window lines m i))) =
      filter isCodeLine (window lines m i)"
    by (rule codeLines_splitLines_joinLines [OF nl])
  have test: "(7 * int m \<le> 10 * int (length (filter isCodeLine (window lines m i)))) =
      substantive (window lines m i) m"
    unfolding substantive_def by linarith
  have pos: "int i + int (stride m) = int (i + stride m)" by simp
  have "extractLoop site lines (int m) (int i) =
      (if 7 * int m \<le> 10 * int (length (filter isCodeLine (window lines m i)))
       then [\<lparr>startLine = int i + 1, endLine = int i + int m,
               content = joinLines (window lines m i),
               normalized = normalizeCode site (joinLines (window lines m i))\<rparr>]
       else [])
      @ extractLoop site lines (int m) (int i + int (stride m))"
    by (subst extractLoop.simps) (simp only: guard if_True Let_def slice count stride_int)
  then show ?thesis
    using True by (simp only: test pos windowBlock_def if_True)
next
  case False
  then have "\<not> int i \<le> int (length lines) - int m" by simp
  with False show ?thesis by (subst extractLoop.simps) simp
qed

lemma windowStarts_from:
  "filter (\<lambda>i. i + m \<le> n) (map (\<lambda>k. k * stride m) [k..<Suc n]) =
     (if k * stride m + m \<le> n
      then k * stride m # filter (\<lambda>i. i + m \<le> n) (map (\<lambda>k. k * stride m) [Suc k..<Suc n])
      else [])"
proof (cases "k * stride m + m \<le> n")
  case True
  with le_mult_stride [of k m] have "k < Suc n" by linarith
  then have "[k..<Suc n] = k # [Suc k..<Suc n]" by (rule upt_conv_Cons)
  then show ?thesis using True by simp
next
  case False
  have "\<And>j. j \<in> set [k..<Suc n] \<Longrightarrow> \<not> j * stride m + m \<le> n"
  proof -
    fix j assume "j \<in> set [k..<Suc n]"
    then have "k \<le> j" by auto
    then have "k * stride m \<le> j * stride m" by simp
    with False show "\<not> j * stride m + m \<le> n" by linarith
  qed
  then have "filter (\<lambda>i. i + m \<le> n) (map (\<lambda>k. k * stride m) [k..<Suc n]) = []"
    by (auto simp: filter_empty_conv)
  with False show ?thesis by simp
qed

lemma extractLoop_windows:
  assumes "\<forall>l\<in>set lines. newline \<notin> set l"
  shows "extractLoop site lines (int m) (int (k * stride m)) =
     map (windowBlock site lines m)
       (filter (\<lambda>i. substantive (window lines m i) m)
          (filter (\<lambda>i. i + m \<le> length lines) (map (\<lambda>k. k * stride m) [k..<Suc (length lines)])))"
proof (induction "Suc (length lines) - k" arbitrary: k)
  case 0
  then have "length lines < k" by simp
  with le_mult_stride [of k m] have "\<not> k * stride m + m \<le> length lines" by linarith
  then show ?case
    by (subst extractLoop_step [OF assms], subst windowStarts_from) simp
next
  case (Suc d)
  then have d: "d = Suc (length lines) - Suc k" by simp
  have next_pos: "k * stride m + stride m = Suc k * stride m" by simp
  show ?case
  proof (cases "k * stride m + m \<le> length lines")
    case True
    have L: "extractLoop site lines (int m) (int (k * stride m)) =
        (if substantive (window lines m (k * stride m)) m
         then [windowBlock site lines m (k * stride m)] else [])
        @ extractLoop site lines (int m) (int (Suc k * stride m))"
      by (subst extractLoop_step [OF assms]) (simp only: True if_True next_pos)
    have R: "filter (\<lambda>i. i + m \<le> length lines)
          (map (\<lambda>k. k * stride m) [k..<Suc (length lines)]) =
        k * stride m # filter (\<lambda>i. i + m \<le> length lines)
          (map (\<lambda>k. k * stride m) [Suc k..<Suc (length lines)])"
      by (subst windowStarts_from) (simp only: True if_True)
    show ?thesis
      unfolding L R Suc.hyps(1) [OF d] by simp
  next
    case False
    have L: "extractLoop site lines (int m) (int (k * stride m)) = []"
      by (subst extractLoop_step [OF assms]) (simp only: False if_False)
    have R: "filter (\<lambda>i. i + m \<le> length lines)
          (map (\<lambda>k. k * stride m) [k..<Suc (length lines)]) = []"
      by (subst windowStarts_from) (simp only: False if_False)
    show ?thesis
      unfolding L R by simp
  qed
qed

lemma extractCodeBlocks_refines:
  "extractCodeBlocks site text (int minLines) = windowBlocks site (splitLines text) minLines"
  using extractLoop_windows [of "splitLines text" site minLines 0]
  by (simp add: extractCodeBlocks_def windowBlocks_def windowStarts_def splitLines_no_newline)

lemma windowStarts_fit: "list_all (\<lambda>i. i + m \<le> n) (windowStarts n m)"
  by (simp add: windowStarts_def list_all_iff)

lemma windowStarts_short: "n < m \<Longrightarrow> windowStarts n m = []"
  by (auto simp: windowStarts_def filter_empty_conv)

lemma length_window: "i + m \<le> length lines \<Longrightarrow> length (window lines m i) = m"
  by (simp add: window_def)

text \<open>
  C7. For a non-negative integer \<open>minLines\<close>, \<open>extractCodeBlocks\<close> emits exactly the
  blocks of the windows of \<open>minLines\<close> consecutive lines that start at the multiples of
  the stride \<open>max 1 (minLines div 2)\<close>, fit into the buffer and hold at least 70 percent
  code lines (\<open>windowBlocks\<close>); every start position leaves room for a full window of
  \<open>minLines\<close> lines, so no partial window is emitted; and a buffer with fewer than
  \<open>minLines\<close> lines yields no block.
\<close>

theorem extractCodeBlocks_windows:
  "extractCodeBlocks site text (int minLines) = windowBlocks site (splitLines text) minLines \<and>
   list_all (\<lambda>i. i + minLines \<le> length (splitLines text) \<and>
                length (window (splitLines text) minLines i) = minLines)
     (windowStarts (length (splitLines text)) minLines) \<and>
   (length (splitLines text) < minLines \<longrightarrow> extractCodeBlocks site text (int minLines) = [])"
proof -
  have refine: "extractCodeBlocks site text (int minLines) =
      windowBlocks site (splitLines text) minLines"
    by (rule extractCodeBlocks_refines)
  have full: "list_all (\<lambda>i. i + minLines \<le> length (splitLines text) \<and>
                length (window (splitLines text) minLines i) = minLines)
     (windowStarts (length (splitLines text)) minLines)"
    using windowStarts_fit [of minLines "length (splitLines text)"]
    by (simp add: list_all_iff length_window)
  have short: "length (splitLines text) < minLines \<longrightarrow>
      extractCodeBlocks site text (int minLines) = []"
    by (simp add: refine windowBlocks_def windowStarts_short)
  from refine full short show ?thesis by blast
qed

theorem extractCodeBlocks_windows_witness:
  "length (splitLines ''a\<newline>b'') < 3 \<and> extractCodeBlocks Rule ''a\<newline>b'' (int 3) = [] \<and>
   extractCodeBlocks Rule ''a\<newline>b\<newline>c\<newline>d'' (int 3) =
     windowBlocks Rule (splitLines ''a\<newline>b\<newline>c\<newline>d'') 3 \<and>
   windowStarts 4 3 = [0, 1]"
proof -
  have short: "length (splitLines ''a\<newline>b'') < 3" by (simp add: newline_def)
  have starts: "windowStarts 4 3 = [0, 1]"
    by (simp add: windowStarts_def stride_def upt_conv_Cons)
  from short starts show ?thesis
    using extractCodeBlocks_windows [of Rule "''a\<newline>b''" 3]
      extractCodeBlocks_windows [of Rule "''a\<newline>b\<newline>c\<newline>d''" 3]
    by blast
qed

section \<open>The comparison ceiling of the rule\<close>





lemma comparisonLoop_stops:
  "MAX_COMPARISONS \<le> comparisonCount st + 1 \<Longrightarrow>
   comparisonLoop minLines minSimilarity block1 (block2 # rest) st =
     st\<lparr>comparisonCount := comparisonCount st + 1\<rparr>"
  by simp



section \<open>Buckets of the script\<close>

lemma addToMap_wellBucketed:
  "wellBucketed m \<Longrightarrow> wellBucketed (addToMap (hashOf b) b m)"
  by (induction m) (auto simp: wellBucketed_def)

lemma groupByHash_wellBucketed:
  "wellBucketed m \<Longrightarrow> wellBucketed (groupByHash allBlocks m)"
  by (induction allBlocks arbitrary: m) (simp_all add: addToMap_wellBucketed)

section \<open>What the loops of the script hand to the scorer\<close>

text \<open>Every pair a loop adds to the trace satisfies what holds of all pairs it can form.\<close>

lemma similarityLoop_compared:
  assumes "list_all Q (compared st)" and "list_all (\<lambda>block2. Q (block1, block2)) rest"
  shows "list_all Q (compared (snd (similarityLoop minLines minSimilarity block1 rest (similar, st))))"
  using assms
proof (induction rest arbitrary: similar st)
  case Nil
  then show ?case by simp
next
  case (Cons block2 rest)
  then show ?case by (simp add: Let_def)
qed

lemma bucketLoop_compared:
  assumes "list_all Q (compared st)"
    and "list_all (\<lambda>block1. list_all (\<lambda>block2. Q (block1, block2)) bs) bs"
  shows "list_all Q (compared (bucketLoop minLines minSimilarity bs st))"
proof -
  have "list_all Q (compared st) \<Longrightarrow>
      list_all (\<lambda>block1. list_all (\<lambda>block2. Q (block1, block2)) all) bs \<Longrightarrow>
      list_all (\<lambda>b. b \<in> set all) bs \<Longrightarrow>
      list_all Q (compared (bucketLoop minLines minSimilarity bs st))" for all
  proof (induction bs arbitrary: st)
    case Nil
    then show ?case by simp
  next
    case (Cons block1 rest)
    have rest_ok: "list_all (\<lambda>block2. Q (block1, block2)) rest"
      using Cons.prems(2,3) by (auto simp: list_all_iff)
    obtain similar st1 where loop:
      "similarityLoop minLines minSimilarity block1 rest ([block1], st) = (similar, st1)"
      by (cases "similarityLoop minLines minSimilarity block1 rest ([block1], st)")
    have st1: "list_all Q (compared st1)"
      using similarityLoop_compared [OF Cons.prems(1) rest_ok, of minLines minSimilarity "[block1]"]
      by (simp add: loop)
    show ?case
      using Cons.IH Cons.prems st1 by (simp add: loop Let_def)
  qed
  from this [of bs] assms show ?thesis by (simp add: list_all_iff)
qed

lemma forEachBucket_compared:
  assumes "list_all Q (compared st)"
    and "list_all (\<lambda>(k, bs). list_all (\<lambda>block1. list_all (\<lambda>block2. Q (block1, block2)) bs) bs) m"
  shows "list_all Q (compared (forEachBucket minLines minSimilarity m st))"
  using assms
proof (induction m arbitrary: st)
  case Nil
  then show ?case by simp
next
  case (Cons entry m)
  obtain k bs where entry: "entry = (k, bs)" by (cases entry)
  from Cons.prems have "list_all Q (compared (checkBucket minLines minSimilarity bs st))"
    by (simp add: entry checkBucket_def bucketLoop_compared)
  with Cons.IH Cons.prems show ?case by (simp add: entry)
qed

lemma findDuplicates_same_hash:
  "list_all (\<lambda>(block1, block2). hashOf block1 = hashOf block2)
     (compared (findDuplicates minLines minSimilarity allBlocks))"
proof -
  have "wellBucketed (groupByHash allBlocks [])"
    by (rule groupByHash_wellBucketed) (simp add: wellBucketed_def)
  then have "list_all (\<lambda>(k, bs). list_all (\<lambda>block1. list_all (\<lambda>block2.
      (case (block1, block2) of (block1, block2) \<Rightarrow> hashOf block1 = hashOf block2)) bs) bs)
      (groupByHash allBlocks [])"
    by (auto simp: wellBucketed_def list_all_iff)
  then show ?thesis
    unfolding findDuplicates_def by (intro forEachBucket_compared) simp_all
qed

text \<open>
  C3, as amended. In the script, every pair handed to \<open>calculateSimilarity\<close> shares its
  hash, the first 50 characters of the normalized content, and a bucket of no block or of
  one block is left without any comparison and without any other change of the state.
\<close>

theorem script_compares_within_buckets:
  "list_all (\<lambda>(block1, block2). hashOf block1 = hashOf block2)
     (compared (findDuplicates minLines minSimilarity allBlocks)) \<and>
   checkBucket minLines minSimilarity [] st = st \<and>
   checkBucket minLines minSimilarity [b] st = st"
  by (simp add: findDuplicates_same_hash checkBucket_def)

text \<open>The rule has no buckets: on \<open>twoHalves\<close> it scores two blocks with different hashes.\<close>

lemma blocks_twoHalves:
  "extractCodeBlocks Rule twoHalves 10 =
     [\<lparr>startLine = 1, endLine = 10,
        content = ''a\<newline>a\<newline>a\<newline>a\<newline>a\<newline>a\<newline>a\<newline>a\<newline>a\<newline>a'',
        normalized = ''__VAR0__\<newline>__VAR0__\<newline>__VAR0__\<newline>__VAR0__\<newline>__VAR0__\<newline>__VAR0__\<newline>__VAR0__\<newline>__VAR0__\<newline>__VAR0__\<newline>__VAR0__''\<rparr>,
      \<lparr>startLine = 6, endLine = 15,
        content = ''a\<newline>a\<newline>a\<newline>a\<newline>a\<newline>1\<newline>1\<newline>1\<newline>1\<newline>1'',
        normalized = ''__VAR0__\<newline>__VAR0__\<newline>__VAR0__\<newline>__VAR0__\<newline>__VAR0__\<newline>1\<newline>1\<newline>1\<newline>1\<newline>1''\<rparr>,
      \<lparr>startLine = 11, endLine = 20,
        content = ''1\<newline>1\<newline>1\<newline>1\<newline>1\<newline>1\<newline>1\<newline>1\<newline>1\<newline>1'',
        normalized = ''1\<newline>1\<newline>1\<newline>1\<newline>1\<newline>1\<newline>1\<newline>1\<newline>1\<newline>1''\<rparr>]"
  by (simp add: twoHalves_def extractor_defs normalizer_defs char_class_defs)

lemma renormalize_placeholders:
  "normalizeCode Rule ''__VAR0__\<newline>__VAR0__\<newline>__VAR0__\<newline>__VAR0__\<newline>__VAR0__\<newline>__VAR0__\<newline>__VAR0__\<newline>__VAR0__\<newline>__VAR0__\<newline>__VAR0__'' =
     ''__VAR0__\<newline>__VAR0__\<newline>__VAR0__\<newline>__VAR0__\<newline>__VAR0__\<newline>__VAR0__\<newline>__VAR0__\<newline>__VAR0__\<newline>__VAR0__\<newline>__VAR0__''"
  by (simp add: normalizer_defs char_class_defs)

lemma renormalize_numbers:
  "normalizeCode Rule ''1\<newline>1\<newline>1\<newline>1\<newline>1\<newline>1\<newline>1\<newline>1\<newline>1\<newline>1'' =
     ''1\<newline>1\<newline>1\<newline>1\<newline>1\<newline>1\<newline>1\<newline>1\<newline>1\<newline>1''"
  by (simp add: normalizer_defs char_class_defs)

lemma score_twoHalves:
  "calculateSimilarity Rule
     ''__VAR0__\<newline>__VAR0__\<newline>__VAR0__\<newline>__VAR0__\<newline>__VAR0__\<newline>__VAR0__\<newline>__VAR0__\<newline>__VAR0__\<newline>__VAR0__\<newline>__VAR0__''
     ''1\<newline>1\<newline>1\<newline>1\<newline>1\<newline>1\<newline>1\<newline>1\<newline>1\<newline>1'' = 0"
  unfolding calculateSimilarity_def renormalize_placeholders renormalize_numbers
  by (simp add: newline_def)

text \<open>
  C3 as stated fails in the rule: the only pair scored on \<open>twoHalves\<close> is the block at
  line 1 with the block at line 11, whose first 50 normalized characters differ.
\<close>

theorem rule_compares_across_fingerprints:
  "map (\<lambda>(block1, block2). (startLine block1, take 50 (normalized block1),
          startLine block2, take 50 (normalized block2)))
     (scored (create JUndefined JUndefined twoHalves)) =
     [(1, ''__VAR0__\<newline>__VAR0__\<newline>__VAR0__\<newline>__VAR0__\<newline>__VAR0__\<newline>__VAR'',
       11, ''1\<newline>1\<newline>1\<newline>1\<newline>1\<newline>1\<newline>1\<newline>1\<newline>1\<newline>1'')]"
proof -
  have "length twoHalves \<le> MAX_CONTENT_SIZE"
    by (simp add: twoHalves_def MAX_CONTENT_SIZE_def)
  then show ?thesis
    by (simp add: create_def MIN_DUPLICATION_LINES_def MIN_SIMILARITY_def MAX_BLOCKS_def
        MAX_COMPARISONS_def blocks_twoHalves score_twoHalves)
qed

section \<open>Blocks that are too close\<close>








section \<open>The same for the rule\<close>




section \<open>Two blocks of one file\<close>

lemma groupByHash_pair:
  "hashOf block1 = hashOf block2 \<Longrightarrow>
   groupByHash [block1, block2] [] = [(hashOf block1, [block1, block2])]"
  by simp







section \<open>Text made of digits\<close>

lemma digit_classes:
  assumes "isDigit c"
  shows "\<not> isWhiteSpace c" "c \<noteq> newline" "\<not> isIdentStart c" "c \<noteq> CHR ''/''" "c \<noteq> CHR ''*''"
  using assms by (auto simp: char_class_defs Let_def)












section \<open>The lines of the large file\<close>







section \<open>A bucket of dissimilar blocks: every pair is scored\<close>





section \<open>The large file under the script\<close>













section \<open>Substitution keeps the text in the normal form of the first stage\<close>

lemma chain_weaken: "chain pc s \<Longrightarrow> chain PO s"
  by (cases s) (auto split: if_splits)

lemma chain_suffix: "chain pc (seg @ s) \<Longrightarrow> chain PO s"
proof (induction seg arbitrary: pc)
  case Nil
  then show ?case by (simp add: chain_weaken)
next
  case (Cons c seg)
  then have "chain (pclassOf c) (seg @ s)" by (simp split: if_splits)
  then show ?case by (rule Cons.IH)
qed

lemma solid_pclass: "\<not> isWhiteSpace c \<Longrightarrow> c \<noteq> CHR ''/'' \<Longrightarrow> pclassOf c = PO"
  by simp

lemma chain_solid_append:
  "solid r \<Longrightarrow> chain PO s \<Longrightarrow> chain pc (r @ s)"
proof (induction r arbitrary: pc)
  case Nil
  then show ?case by (simp add: solid_def)
next
  case (Cons c r)
  from Cons.prems(1) have c: "\<not> isWhiteSpace c" "c \<noteq> CHR ''/''" "c \<noteq> CHR ''*''"
    and rest: "list_all (\<lambda>c. \<not> isWhiteSpace c \<and> c \<noteq> CHR ''/'' \<and> c \<noteq> CHR ''*'') r"
    by (simp_all add: solid_def)
  have "chain PO (r @ s)"
  proof (cases r)
    case Nil
    with Cons.prems(2) show ?thesis by simp
  next
    case (Cons d r')
    with rest have "solid r" by (simp add: solid_def)
    then show ?thesis using Cons.prems(2) by (rule Cons.IH)
  qed
  with c show ?case by simp
qed

lemma matchItems_suffix:
  "matchItems items prev rest = Some (prev', rest') \<Longrightarrow> \<exists>seg. rest = seg @ rest'"
proof (induction items prev rest rule: matchItems.induct)
  case (5 c items prev x xs)
  then show ?case by (auto split: if_splits intro: exI [of _ "x # _"])
qed (auto split: if_splits)

lemma replaceAll_chain:
  assumes "solid repl"
  shows "chain pc rest \<Longrightarrow> chain pc (replaceAll items repl prev rest)"
proof (induction rest arbitrary: pc prev rule: length_induct)
  case (1 rest)
  have copy: "chain pc (case rest of [] \<Rightarrow> [] | x # xs \<Rightarrow> x # replaceAll items repl (Some x) xs)"
  proof (cases rest)
    case Nil
    with "1.prems" show ?thesis by simp
  next
    case (Cons x xs)
    with "1.prems" have "chain (pclassOf x) xs" by (simp split: if_splits)
    with "1.IH" Cons have "chain (pclassOf x) (replaceAll items repl (Some x) xs)" by simp
    with "1.prems" Cons show ?thesis by (simp split: if_splits)
  qed
  show ?case
  proof (cases "matchItems items prev rest")
    case None
    with copy show ?thesis by (subst replaceAll.simps) simp
  next
    case (Some m)
    obtain prev' rest' where m: "m = (prev', rest')" by (cases m)
    show ?thesis
    proof (cases "length rest' < length rest")
      case True
      from Some m obtain seg where "rest = seg @ rest'"
        using matchItems_suffix by blast
      with "1.prems" have "chain PO rest'" using chain_suffix by blast
      with "1.IH" True have "chain PO (replaceAll items repl prev' rest')" by simp
      with assms have "chain pc (repl @ replaceAll items repl prev' rest')"
        by (rule chain_solid_append)
      with Some m True show ?thesis by (subst replaceAll.simps) simp
    next
      case False
      from copy have "chain PO (case rest of [] \<Rightarrow> [] | x # xs \<Rightarrow> x # replaceAll items repl (Some x) xs)"
        by (rule chain_weaken)
      with assms have "chain pc (repl @ (case rest of [] \<Rightarrow> []
          | x # xs \<Rightarrow> x # replaceAll items repl (Some x) xs))"
        by (rule chain_solid_append)
      with Some m False show ?thesis by (subst replaceAll.simps) simp
    qed
  qed
qed


lemma replaceAll_normalForm:
  "solid repl \<Longrightarrow> normalForm t \<Longrightarrow> normalForm (replaceAll items repl None t)"
proof (cases t)
  case Nil
  assume "solid repl"
  then have "chain PW repl"
    using chain_solid_append [of repl "[]" PW] by simp
  with Nil show ?thesis
    by (subst replaceAll.simps) (simp add: normalForm_def split: option.splits)
next
  case (Cons c cs)
  assume repl: "solid repl" and "normalForm t"
  with Cons have "chain PW t" unfolding normalForm_def by blast
  then have "chain PW (replaceAll items repl None t)"
    by (rule replaceAll_chain [OF repl])
  then show ?thesis by (simp only: normalForm_def simp_thms)
qed

lemma substitute_normalForm:
  "list_all (\<lambda>entry. solid (snd entry)) idents \<Longrightarrow> normalForm t \<Longrightarrow>
   normalForm (substitute site idents t)"
proof (induction idents arbitrary: t)
  case Nil
  then show ?case by simp
next
  case (Cons entry idents)
  obtain ident placeholder where entry: "entry = (ident, placeholder)" by (cases entry)
  show ?case
  proof (cases "compile (regexSource site ident)")
    case None
    with Cons.prems entry show ?thesis by simp
  next
    case (Some regex)
    from Cons.prems entry have "normalForm (replaceAll regex placeholder None t)"
      by (simp add: replaceAll_normalForm)
    with Cons.IH Cons.prems entry Some show ?thesis by simp
  qed
qed

lemma decimal_digit: "d < 10 \<Longrightarrow> isDigit (''0123456789'' ! d)"
proof -
  assume "d < 10"
  then have "''0123456789'' ! d \<in> set ''0123456789''" by (intro nth_mem) simp
  then show ?thesis by (auto simp: isDigit_def)
qed

lemma showNat_digits: "list_all isDigit (showNat n)"
proof (induction n rule: showNat.induct)
  case (1 n)
  show ?case
  proof (cases "n < 10")
    case True
    then show ?thesis by (subst showNat.simps) (simp add: decimal_digit)
  next
    case False
    with 1 have "list_all isDigit (showNat (n div 10))" by simp
    moreover have "isDigit (''0123456789'' ! (n mod 10))" by (rule decimal_digit) simp
    ultimately show ?thesis using False by (subst showNat.simps) simp
  qed
qed

lemma digit_solid: "isDigit c \<Longrightarrow> \<not> isWhiteSpace c \<and> c \<noteq> CHR ''/'' \<and> c \<noteq> CHR ''*''"
  by (simp add: digit_classes)

lemma solid_placeholderOf: "solid (placeholderOf n)"
proof -
  have "list_all (\<lambda>c. \<not> isWhiteSpace c \<and> c \<noteq> CHR ''/'' \<and> c \<noteq> CHR ''*'') (showNat n)"
    using showNat_digits [of n] by (auto simp: list_all_iff digit_solid)
  then show ?thesis
    by (simp add: solid_def placeholderOf_def isWhiteSpace_def)
qed

lemma mapSet_solid:
  "list_all (\<lambda>entry. solid (snd entry)) m \<Longrightarrow> solid v \<Longrightarrow>
   list_all (\<lambda>entry. solid (snd entry)) (mapSet k v m)"
  by (induction m) auto

lemma collectIdentifiers_solid:
  "list_all (\<lambda>entry. solid (snd entry)) (identifiers st) \<Longrightarrow>
   list_all (\<lambda>entry. solid (snd entry)) (identifiers (collectIdentifiers site matches st))"
  by (induction matches arbitrary: st) (auto simp: mapSet_solid solid_placeholderOf)

lemma normalizeIdentifiers_normalForm:
  "normalForm t \<Longrightarrow> normalForm (normalizeIdentifiers site t)"
  by (simp add: normalizeIdentifiers_def Let_def substitute_normalForm collectIdentifiers_solid)


section \<open>A text in normal form is left alone by the first stage\<close>

lemma joinLines_Cons: "ls \<noteq> [] \<Longrightarrow> joinLines (l # ls) = l @ newline # joinLines ls"
  by (cases ls) simp_all

lemma joinLines_splitLines: "joinLines (splitLines t) = t"
proof (induction t)
  case Nil
  then show ?case by simp
next
  case (Cons c cs)
  obtain l ls where split: "splitLines cs = l # ls"
    using splitLines_not_Nil [of cs] by (cases "splitLines cs") auto
  show ?case
  proof (cases "c = newline")
    case True
    with Cons show ?thesis by (simp add: joinLines_Cons splitLines_not_Nil)
  next
    case False
    with Cons split show ?thesis by (cases ls) auto
  qed
qed

lemma chain_lines:
  "chain pc t \<Longrightarrow> chain pc (hd (splitLines t)) \<and> list_all (chain PW) (tl (splitLines t))"
proof (induction t arbitrary: pc)
  case Nil
  then show ?case by simp
next
  case (Cons c cs)
  obtain l ls where split: "splitLines cs = l # ls"
    using splitLines_not_Nil [of cs] by (cases "splitLines cs") auto
  from Cons.prems have tail: "chain (pclassOf c) cs" by (simp split: if_splits)
  from Cons.IH [OF tail] split have IH: "chain (pclassOf c) l" "list_all (chain PW) ls"
    by simp_all
  show ?case
  proof (cases "c = newline")
    case True
    then have "pclassOf c = PW" by (simp add: isWhiteSpace_def newline_def)
    with True Cons.prems IH split show ?thesis
      by (simp add: isWhiteSpace_def newline_def split: if_splits)
  next
    case False
    with Cons.prems IH split show ?thesis by (simp split: if_splits)
  qed
qed

lemma chain_beforeFirst:
  "chain pc l \<Longrightarrow> b = CHR ''/'' \<or> b = CHR ''*'' \<Longrightarrow> beforeFirst [CHR ''/'', b] l = l"
proof (induction l arbitrary: pc)
  case Nil
  then show ?case by simp
next
  case (Cons c cs)
  from Cons.prems have tail: "chain (pclassOf c) cs" by (simp split: if_splits)
  have "\<not> prefix [CHR ''/'', b] (c # cs)"
  proof
    assume "prefix [CHR ''/'', b] (c # cs)"
    then obtain cs' where "c = CHR ''/''" and "cs = b # cs'"
      by (cases cs) (auto simp: prefix_Cons)
    with tail Cons.prems(2) show False by (auto simp: isWhiteSpace_def)
  qed
  with Cons.IH [OF tail Cons.prems(2)] show ?case by simp
qed

lemma chain_last: "chain pc l \<Longrightarrow> l \<noteq> [] \<Longrightarrow> \<not> isWhiteSpace (last l)"
proof (induction l arbitrary: pc)
  case Nil
  then show ?case by simp
next
  case (Cons c cs)
  from Cons.prems have tail: "chain (pclassOf c) cs" by (simp split: if_splits)
  show ?case
  proof (cases cs)
    case Nil
    with tail show ?thesis by (auto split: if_splits)
  next
    case (Cons d ds)
    with Cons.IH [OF tail] show ?thesis by simp
  qed
qed

lemma chain_first: "chain PW l \<Longrightarrow> l \<noteq> [] \<and> \<not> isWhiteSpace (hd l)"
  by (cases l) (auto split: if_splits)

lemma dropWhile_first: "l \<noteq> [] \<Longrightarrow> \<not> P (hd l) \<Longrightarrow> dropWhile P l = l"
  by (cases l) simp_all

lemma chain_trim: "chain PW l \<Longrightarrow> trim l = l"
proof -
  assume c: "chain PW l"
  then have l: "l \<noteq> []" "\<not> isWhiteSpace (hd l)" using chain_first by blast+
  with c have "\<not> isWhiteSpace (last l)" using chain_last by blast
  with l have "dropWhile isWhiteSpace (rev l) = rev l"
    by (intro dropWhile_first) (simp_all add: hd_rev)
  with l show ?thesis by (simp add: trim_def dropWhile_first)
qed

lemma chain_collapseWhitespace:
  "chain pc l \<Longrightarrow> newline \<notin> set l \<Longrightarrow> collapseWhitespace l = l"
proof (induction l arbitrary: pc)
  case Nil
  then show ?case by simp
next
  case (Cons c cs)
  from Cons.prems have tail: "chain (pclassOf c) cs" and nl: "newline \<notin> set cs"
    by (simp_all split: if_splits)
  show ?case
  proof (cases "isWhiteSpace c")
    case True
    with Cons.prems have space: "c = CHR '' ''" by (auto split: if_splits)
    from True tail have "chain PW cs" by simp
    then have "dropWhile isWhiteSpace cs = cs"
      using chain_first dropWhile_first by blast
    with True space Cons.IH [OF tail nl] show ?thesis by simp
  next
    case False
    with Cons.IH [OF tail nl] show ?thesis by simp
  qed
qed

lemma chain_normalizeLine:
  assumes "chain PW l" and "newline \<notin> set l"
  shows "normalizeLine l = l"
  using assms
  by (simp add: normalizeLine_def chain_beforeFirst chain_trim chain_collapseWhitespace)

lemma normalizeLines_fixed:
  "list_all (\<lambda>l. chain PW l \<and> newline \<notin> set l) ls \<Longrightarrow> normalizeLines ls = ls"
proof (induction ls)
  case Nil
  then show ?case by simp
next
  case (Cons l ls)
  then have "normalizeLine l = l" and "l \<noteq> []"
    using chain_first by (auto simp: chain_normalizeLine)
  with Cons show ?case by (simp add: Let_def)
qed

lemma normalForm_fixed: "normalForm t \<Longrightarrow> codeWithoutWhitespace t = t"
proof (cases t)
  case Nil
  then show ?thesis
    by (simp add: codeWithoutWhitespace_def normalizeLine_def trim_def)
next
  case (Cons c cs)
  assume "normalForm t"
  with Cons have c: "chain PW t" unfolding normalForm_def by blast
  obtain l ls where split: "splitLines t = l # ls"
    using splitLines_not_Nil [of t] by (cases "splitLines t") auto
  from chain_lines [OF c] split have "list_all (chain PW) (splitLines t)" by simp
  moreover have "list_all (\<lambda>l. newline \<notin> set l) (splitLines t)"
    by (simp add: list_all_iff splitLines_no_newline)
  ultimately have "list_all (\<lambda>l. chain PW l \<and> newline \<notin> set l) (splitLines t)"
    by (simp add: list_all_iff)
  then have "normalizeLines (splitLines t) = splitLines t"
    by (rule normalizeLines_fixed)
  then show ?thesis
    by (simp add: codeWithoutWhitespace_def joinLines_splitLines)
qed


section \<open>The first stage produces a text in normal form\<close>

lemma noPair_weaken: "noPair a b p s \<Longrightarrow> noPair a b False s"
  by (cases s) auto

lemma noPair_prefix: "noPair a b p (xs @ ys) \<Longrightarrow> noPair a b p xs"
  by (induction xs arbitrary: p) auto

lemma noPair_suffix: "noPair a b p (xs @ ys) \<Longrightarrow> noPair a b False ys"
proof (induction xs arbitrary: p)
  case Nil
  then show ?case by (simp add: noPair_weaken)
next
  case (Cons x xs)
  then show ?case by auto
qed

lemma beforeFirst_prefix: "\<exists>ys. s = beforeFirst sep s @ ys"
  by (induction s) auto

lemma noPair_beforeFirst: "noPair a b p s \<Longrightarrow> noPair a b p (beforeFirst sep s)"
  using beforeFirst_prefix [of s sep] noPair_prefix by metis

lemma beforeFirst_noPair:
  "\<not> (p \<and> s \<noteq> [] \<and> hd s = b) \<Longrightarrow> noPair a b p (beforeFirst [a, b] s)"
proof (induction s arbitrary: p)
  case Nil
  then show ?case by simp
next
  case (Cons c cs)
  show ?case
  proof (cases "prefix [a, b] (c # cs)")
    case True
    then show ?thesis by simp
  next
    case False
    then have "\<not> (c = a \<and> cs \<noteq> [] \<and> hd cs = b)"
      by (cases cs) (auto simp: prefix_Cons)
    then have "noPair a b (c = a) (beforeFirst [a, b] cs)" by (rule Cons.IH)
    with False Cons.prems show ?thesis by simp
  qed
qed

lemma withoutComments_noPair:
  "noPair CHR ''/'' CHR ''/'' False (beforeFirst ''/*'' (beforeFirst ''//'' l)) \<and>
   noPair CHR ''/'' CHR ''*'' False (beforeFirst ''/*'' (beforeFirst ''//'' l))"
proof -
  have "noPair CHR ''/'' CHR ''/'' False (beforeFirst ''//'' l)"
    by (rule beforeFirst_noPair) simp
  then have "noPair CHR ''/'' CHR ''/'' False (beforeFirst ''/*'' (beforeFirst ''//'' l))"
    by (rule noPair_beforeFirst)
  moreover have "noPair CHR ''/'' CHR ''*'' False (beforeFirst ''/*'' (beforeFirst ''//'' l))"
    by (rule beforeFirst_noPair) simp
  ultimately show ?thesis by simp
qed

lemma dropWhile_last:
  "xs \<noteq> [] \<Longrightarrow> \<not> P (last xs) \<Longrightarrow> dropWhile P xs \<noteq> [] \<and> last (dropWhile P xs) = last xs"
  by (induction xs) (auto split: if_splits)

lemma trim_part: "\<exists>xs ys. w = xs @ trim w @ ys"
proof -
  let ?y = "dropWhile isWhiteSpace w"
  have a: "w = takeWhile isWhiteSpace w @ ?y" by simp
  have "rev (takeWhile isWhiteSpace (rev ?y) @ dropWhile isWhiteSpace (rev ?y)) = rev (rev ?y)"
    by (simp only: takeWhile_dropWhile_id)
  then have "rev (dropWhile isWhiteSpace (rev ?y)) @ rev (takeWhile isWhiteSpace (rev ?y)) = ?y"
    by (simp only: rev_append rev_rev_ident)
  then have b: "?y = trim w @ rev (takeWhile isWhiteSpace (rev ?y))"
    by (simp only: trim_def)
  from a b show ?thesis by metis
qed

lemma noPair_trim: "noPair a b p w \<Longrightarrow> noPair a b False (trim w)"
proof -
  assume w: "noPair a b p w"
  obtain xs ys where "w = xs @ trim w @ ys" using trim_part by blast
  with w have "noPair a b p (xs @ trim w @ ys)" by simp
  then have "noPair a b False (trim w @ ys)" by (rule noPair_suffix)
  then show ?thesis by (rule noPair_prefix)
qed

lemma trim_ends:
  "trim w \<noteq> [] \<Longrightarrow> \<not> isWhiteSpace (hd (trim w)) \<and> \<not> isWhiteSpace (last (trim w))"
proof -
  let ?y = "dropWhile isWhiteSpace w"
  let ?z = "dropWhile isWhiteSpace (rev ?y)"
  assume "trim w \<noteq> []"
  then have z: "?z \<noteq> []" by (simp add: trim_def)
  have y: "?y \<noteq> []"
  proof
    assume e: "?y = []"
    have "?z = []" unfolding e by simp
    with z show False by contradiction
  qed
  from z have "\<not> isWhiteSpace (hd ?z)" by (rule hd_dropWhile)
  then have last: "\<not> isWhiteSpace (last (trim w))"
    using z by (simp add: trim_def last_rev)
  from y have "\<not> isWhiteSpace (hd ?y)" by (rule hd_dropWhile)
  then have "\<not> isWhiteSpace (last (rev ?y))" using y by (simp add: last_rev)
  with y have "last ?z = last (rev ?y)"
    using dropWhile_last [of "rev ?y" isWhiteSpace] by simp
  then have "hd (trim w) = hd ?y"
    using y z by (simp add: trim_def hd_rev last_rev)
  with \<open>\<not> isWhiteSpace (hd ?y)\<close> last show ?thesis by simp
qed

lemma collapseWhitespace_chain:
  "v \<noteq> [] \<Longrightarrow> \<not> isWhiteSpace (last v) \<Longrightarrow> \<not> (pc = PW \<and> isWhiteSpace (hd v)) \<Longrightarrow>
   noPair CHR ''/'' CHR ''/'' (pc = PS) v \<Longrightarrow> noPair CHR ''/'' CHR ''*'' (pc = PS) v \<Longrightarrow>
   chain pc (collapseWhitespace v) \<and> newline \<notin> set (collapseWhitespace v)"
proof (induction v arbitrary: pc rule: collapseWhitespace.induct)
  case 1
  then show ?case by simp
next
  case (2 c cs)
  show ?case
  proof (cases "isWhiteSpace c")
    case True
    let ?cs = "dropWhile isWhiteSpace cs"
    from True "2.prems" have pc: "pc \<noteq> PW" and cs: "cs \<noteq> []" by auto
    with "2.prems" have lastcs: "\<not> isWhiteSpace (last cs)" by simp
    from cs lastcs have d: "?cs \<noteq> []" "last ?cs = last cs"
      using dropWhile_last [of cs isWhiteSpace] by simp_all
    from d(1) have hd: "\<not> isWhiteSpace (hd ?cs)" by (rule hd_dropWhile)
    have split: "cs = takeWhile isWhiteSpace cs @ ?cs" by simp
    from "2.prems"(4) have "noPair CHR ''/'' CHR ''/'' (c = CHR ''/'') cs" by simp
    then have "noPair CHR ''/'' CHR ''/'' (c = CHR ''/'') (takeWhile isWhiteSpace cs @ ?cs)"
      using split by simp
    then have n1: "noPair CHR ''/'' CHR ''/'' (PW = PS) ?cs"
      using noPair_suffix by fastforce
    from "2.prems"(5) have "noPair CHR ''/'' CHR ''*'' (c = CHR ''/'') cs" by simp
    then have "noPair CHR ''/'' CHR ''*'' (c = CHR ''/'') (takeWhile isWhiteSpace cs @ ?cs)"
      using split by simp
    then have n2: "noPair CHR ''/'' CHR ''*'' (PW = PS) ?cs"
      using noPair_suffix by fastforce
    have "chain PW (collapseWhitespace ?cs) \<and> newline \<notin> set (collapseWhitespace ?cs)"
      using "2.IH"(1) [OF True d(1) _ _ n1 n2] d(2) lastcs hd by simp
    with True pc show ?thesis
      by (simp add: isWhiteSpace_def newline_def)
  next
    case False
    have cls: "(pclassOf c = PS) = (c = CHR ''/'')" "pclassOf c \<noteq> PW"
      using False by simp_all
    have head: "\<not> (pc = PS \<and> (c = CHR ''/'' \<or> c = CHR ''*''))"
      using "2.prems"(4,5) by auto
    have nl: "c \<noteq> newline" using False by (auto simp: isWhiteSpace_def newline_def)
    show ?thesis
    proof (cases cs)
      case Nil
      with False head nl cls show ?thesis by auto
    next
      case (Cons d ds)
      then have cs: "cs \<noteq> []" by simp
      with "2.prems" have lastcs: "\<not> isWhiteSpace (last cs)" by simp
      from "2.prems"(4) have n1: "noPair CHR ''/'' CHR ''/'' (pclassOf c = PS) cs"
        by (simp add: cls del: pclassOf.simps)
      from "2.prems"(5) have n2: "noPair CHR ''/'' CHR ''*'' (pclassOf c = PS) cs"
        by (simp add: cls del: pclassOf.simps)
      have "chain (pclassOf c) (collapseWhitespace cs) \<and> newline \<notin> set (collapseWhitespace cs)"
        using "2.IH"(2) [OF False cs lastcs _ n1 n2] cls by simp
      with False head nl show ?thesis by auto
    qed
  qed
qed

lemma normalizeLine_chain:
  "normalizeLine l \<noteq> [] \<Longrightarrow> chain PW (normalizeLine l) \<and> newline \<notin> set (normalizeLine l)"
proof -
  let ?w = "beforeFirst ''/*'' (beforeFirst ''//'' l)"
  assume "normalizeLine l \<noteq> []"
  then have t: "trim ?w \<noteq> []" by (auto simp: normalizeLine_def)
  then have ends: "\<not> isWhiteSpace (hd (trim ?w))" "\<not> isWhiteSpace (last (trim ?w))"
    using trim_ends by blast+
  have n1: "noPair CHR ''/'' CHR ''/'' (PW = PS) (trim ?w)"
    using withoutComments_noPair [of l] by (auto intro: noPair_trim)
  have n2: "noPair CHR ''/'' CHR ''*'' (PW = PS) (trim ?w)"
    using withoutComments_noPair [of l] by (auto intro: noPair_trim)
  show ?thesis
    using collapseWhitespace_chain [OF t ends(2) _ n1 n2] ends(1)
    by (simp add: normalizeLine_def)
qed

lemma normalizeLines_chain:
  "list_all (\<lambda>u. chain PW u \<and> newline \<notin> set u) (normalizeLines ls)"
  by (induction ls) (simp_all add: Let_def normalizeLine_chain)

lemma chain_join: "chain pc l \<Longrightarrow> chain PW r \<Longrightarrow> chain pc (l @ newline # r)"
  by (induction l arbitrary: pc) (auto simp: isWhiteSpace_def newline_def split: if_splits)

lemma joinLines_chain: "list_all (chain PW) ls \<Longrightarrow> ls \<noteq> [] \<Longrightarrow> chain PW (joinLines ls)"
  by (induction ls rule: joinLines.induct) (simp_all add: chain_join)

lemma codeWithoutWhitespace_normalForm: "normalForm (codeWithoutWhitespace x)"
proof (cases "normalizeLines (splitLines x) = []")
  case True
  then show ?thesis by (simp add: codeWithoutWhitespace_def normalForm_def)
next
  case False
  have "list_all (chain PW) (normalizeLines (splitLines x))"
    using normalizeLines_chain [of "splitLines x"] by (simp add: list_all_iff)
  with False have "chain PW (joinLines (normalizeLines (splitLines x)))"
    by (intro joinLines_chain)
  then show ?thesis by (simp add: codeWithoutWhitespace_def normalForm_def)
qed

section \<open>Normalizing twice\<close>

lemma normalizeCode_stages:
  "normalizeCode site x = normalizeIdentifiers site (codeWithoutWhitespace x)"
  by (simp add: normalizeCode_def codeWithoutWhitespace_def)

lemma normalizeCode_normalForm: "normalForm (normalizeCode site x)"
  by (simp add: normalizeCode_stages normalizeIdentifiers_normalForm
      codeWithoutWhitespace_normalForm)

lemma codeWithoutWhitespace_idem:
  "codeWithoutWhitespace (codeWithoutWhitespace x) = codeWithoutWhitespace x"
  by (simp add: normalForm_fixed codeWithoutWhitespace_normalForm)

lemma renormalize:
  "normalizeCode site (normalizeCode site x) = normalizeIdentifiers site (normalizeCode site x)"
  by (simp add: normalizeCode_stages [of site "normalizeIdentifiers site (codeWithoutWhitespace x)"]
      normalForm_fixed normalizeIdentifiers_normalForm codeWithoutWhitespace_normalForm
      normalizeCode_stages [of site x])

lemma normalizeIdentifiers_blockShape: "normalizeIdentifiers Rule blockShape = blockShape"
  by (simp add: blockShape_def normalizer_defs char_class_defs)

text \<open>
  C10, as amended. Normalizing a normalized text only runs the identifier
  canonicalization again: the comment and white-space stage leaves it as it is. So
  \<open>normalizeCode\<close> is idempotent at \<open>x\<close> exactly when \<open>normalizeIdentifiers\<close> leaves
  \<open>normalizeCode x\<close> unchanged, and for two blocks of which this holds, scoring the cached
  normalized contents gives the score of the blocks themselves.
\<close>

theorem renormalize_only_identifiers:
  "normalizeCode site (normalizeCode site x) = normalizeIdentifiers site (normalizeCode site x) \<and>
   (normalizeCode site (normalizeCode site x) = normalizeCode site x) =
     (normalizeIdentifiers site (normalizeCode site x) = normalizeCode site x) \<and>
   (normalizeIdentifiers site (normalizeCode site a) = normalizeCode site a \<and>
    normalizeIdentifiers site (normalizeCode site b) = normalizeCode site b \<longrightarrow>
    calculateSimilarity site (normalizeCode site a) (normalizeCode site b) =
      calculateSimilarity site a b)"
proof -
  have again: "normalizeCode site (normalizeCode site y) =
      normalizeIdentifiers site (normalizeCode site y)" for y
    by (rule renormalize)
  have "calculateSimilarity site (normalizeCode site a) (normalizeCode site b) =
      calculateSimilarity site a b"
    if "normalizeIdentifiers site (normalizeCode site a) = normalizeCode site a"
      and "normalizeIdentifiers site (normalizeCode site b) = normalizeCode site b"
    using that by (simp add: calculateSimilarity_def again)
  with again [of x] show ?thesis by simp
qed

theorem renormalize_only_identifiers_witness:
  "normalizeIdentifiers Rule (normalizeCode Rule blockTotal) = normalizeCode Rule blockTotal \<and>
   normalizeIdentifiers Rule (normalizeCode Rule blockSum) = normalizeCode Rule blockSum \<and>
   calculateSimilarity Rule (normalizeCode Rule blockTotal) (normalizeCode Rule blockSum) =
     calculateSimilarity Rule blockTotal blockSum"
proof -
  have fixed: "normalizeIdentifiers Rule (normalizeCode Rule blockTotal) = normalizeCode Rule blockTotal \<and>
      normalizeIdentifiers Rule (normalizeCode Rule blockSum) = normalizeCode Rule blockSum"
    by (simp add: normalizeCode_blockTotal_Rule normalizeCode_blockSum_Rule
        normalizeIdentifiers_blockShape)
  with renormalize_only_identifiers [of Rule blockTotal blockTotal blockSum]
  show ?thesis by blast
qed

lemma normalizeCode_placeholder_clash:
  "normalizeCode Rule ''x __VAR0__'' = ''__VAR1__ __VAR1__'' \<and>
   normalizeCode Rule ''__VAR1__ __VAR1__'' = ''__VAR0__ __VAR0__'' \<and>
   normalizeCode Rule ''x x'' = ''__VAR0__ __VAR0__'' \<and>
   normalizeCode Rule ''__VAR0__ __VAR0__'' = ''__VAR0__ __VAR0__''"
  by (simp add: normalizer_defs char_class_defs)

text \<open>
  C10 as stated fails: the identifier \<^verbatim>\<open>__VAR0__\<close> of the input clashes with the
  placeholder given to \<^verbatim>\<open>x\<close>, so both become \<^verbatim>\<open>__VAR1__\<close>, and normalizing again renames
  them to \<^verbatim>\<open>__VAR0__\<close>. The cached normalized contents of the blocks \<^verbatim>\<open>x __VAR0__\<close> and
  \<^verbatim>\<open>x x\<close> then score 100, the blocks themselves 0.
\<close>

theorem normalizeCode_not_idempotent:
  "normalizeCode Rule (normalizeCode Rule ''x __VAR0__'') \<noteq> normalizeCode Rule ''x __VAR0__'' \<and>
   calculateSimilarity Rule (normalizeCode Rule ''x __VAR0__'') (normalizeCode Rule ''x x'') = 100 \<and>
   calculateSimilarity Rule ''x __VAR0__'' ''x x'' = 0"
  by (simp add: calculateSimilarity_def normalizeCode_placeholder_clash newline_def)

end
